theory Spec2Isabelle
  imports Main "HOL-Library.Sublist" "HOL-Library.AList" "HOL-Library.List_Lexorder"
begin

section \<open>Data model (types.ts)\<close>

text \<open>
  The family graph engine of the repository: \<open>findRelationshipPath\<close> builds an
  adjacency map from the stored relationships and searches it breadth first;
  \<open>deriveComplexRelationship\<close> names a found path. Field names follow the
  source; \<open>id\<close> and \<open>type\<close> carry a suffix (\<open>id_P\<close>, \<open>id_R\<close>, \<open>type_R\<close>)
  because \<open>id\<close> is a constant of HOL.
\<close>

datatype Gender = male | female | other | unknown

record Person =
  id_P :: string
  name :: string
  gender :: Gender
  birthDate :: "string option"
  profilePicUrl :: "string option"

datatype DirectRelationshipType = FATHER | MOTHER | SPOUSE | SIBLING

record StoredRelationship =
  id_R :: string
  fromPersonId :: string
  toPersonId :: string
  type_R :: DirectRelationshipType

record PathSegment =
  person :: Person
  relationshipToNext :: "string option"
  relationshipId :: "string option"

type_synonym RelationshipPath = "PathSegment list"

text \<open>
  The element type of the adjacency lists,
  \<^verbatim>\<open>{ personId: string; relationshipLabel: string, relationshipId?: string }\<close>.
\<close>

record AdjEntry =
  personId :: string
  relationshipLabel :: string
  relationshipId_E :: "string option"

text \<open>
  The only operation of the source that can throw is \<^verbatim>\<open>adj.get(k)!.push(e)\<close>
  when the key is absent: a method call on \<^verbatim>\<open>undefined\<close>.
\<close>

datatype error = TypeError

section \<open>String tests\<close>

text \<open>\<^verbatim>\<open>s.startsWith(p)\<close> and \<^verbatim>\<open>s.includes(p)\<close> on character lists.\<close>

fun startsWith :: "string \<Rightarrow> string \<Rightarrow> bool" where
  "startsWith s [] = True"
| "startsWith [] (c # p) = False"
| "startsWith (x # s) (c # p) = (x = c \<and> startsWith s p)"

fun includes_str :: "string \<Rightarrow> string \<Rightarrow> bool" where
  "includes_str [] p = (p = [])"
| "includes_str (x # s) p = (startsWith (x # s) p \<or> includes_str s p)"

text \<open>
  Optional chaining \<^verbatim>\<open>l?.includes(p)\<close>, \<^verbatim>\<open>l?.startsWith(p)\<close>: an absent label
  gives \<^verbatim>\<open>undefined\<close>, which every condition of the source reads as false.
\<close>

definition opt_includes :: "string option \<Rightarrow> string \<Rightarrow> bool" where
  "opt_includes l p = (case l of None \<Rightarrow> False | Some s \<Rightarrow> includes_str s p)"

definition opt_startsWith :: "string option \<Rightarrow> string \<Rightarrow> bool" where
  "opt_startsWith l p = (case l of None \<Rightarrow> False | Some s \<Rightarrow> startsWith s p)"

text \<open>Truthiness of an optional string: absent and empty are both false.\<close>

definition truthy :: "string option \<Rightarrow> bool" where
  "truthy l = (case l of None \<Rightarrow> False | Some s \<Rightarrow> s \<noteq> [])"

section \<open>The relationship classifier\<close>

text \<open>
  \<^verbatim>\<open>g === 'male' ? m : g === 'female' ? f : n\<close>, the selection every branch of the
  classifier makes.
\<close>

definition genderTerm :: "Gender \<Rightarrow> string \<Rightarrow> string \<Rightarrow> string \<Rightarrow> string" where
  "genderTerm g m f n = (if g = male then m else if g = female then f else n)"

text \<open>\<^verbatim>\<open>`${startPerson.name} is ${genderTerm} of ${endPerson.name}.`\<close>\<close>

definition sentence :: "Person \<Rightarrow> string \<Rightarrow> Person \<Rightarrow> string" where
  "sentence startPerson term endPerson =
     name startPerson @ '' is '' @ term @ '' of '' @ name endPerson @ ''.''"

text \<open>The block \<^verbatim>\<open>if (path.length === 2)\<close>; \<open>None\<close> is falling out of it.\<close>

definition direct_relationship :: "RelationshipPath \<Rightarrow> string option" where
  "direct_relationship path =
     (let startPerson = person (path ! 0);
          endPerson = person (path ! (length path - 1));
          p1Segment = path ! 0
      in if truthy (relationshipToNext p1Segment) then
           (if opt_startsWith (relationshipToNext p1Segment) ''is child of'' then
              Some (name startPerson @ '' is child of '' @ name endPerson @ ''.'')
            else if opt_includes (relationshipToNext p1Segment) ''is sibling of'' then
              Some (name startPerson @ '' and '' @ name endPerson @ '' are siblings.'')
            else
              Some (name startPerson @ '' '' @ the (relationshipToNext p1Segment)
                      @ '' '' @ name endPerson @ ''.''))
         else None)"

text \<open>The block \<^verbatim>\<open>if (path.length === 3)\<close>, its six tests in the order of the source.\<close>

definition one_intermediate :: "RelationshipPath \<Rightarrow> string option" where
  "one_intermediate path =
     (let startPerson = person (path ! 0);
          endPerson = person (path ! (length path - 1));
          p1RelToP2 = relationshipToNext (path ! 0);
          p2RelToP3 = relationshipToNext (path ! 1)
      in if (opt_includes p1RelToP2 ''is father of'' \<or> opt_includes p1RelToP2 ''is mother of'') \<and>
            (opt_includes p2RelToP3 ''is father of'' \<or> opt_includes p2RelToP3 ''is mother of'') then
           Some (sentence startPerson
                   (genderTerm (gender startPerson) ''grandfather'' ''grandmother'' ''grandparent'')
                   endPerson)
         else if opt_startsWith p1RelToP2 ''is child of'' \<and> opt_startsWith p2RelToP3 ''is child of'' then
           Some (sentence startPerson
                   (genderTerm (gender startPerson) ''grandson'' ''granddaughter'' ''grandchild'')
                   endPerson)
         else if (opt_includes p1RelToP2 ''is father of'' \<or> opt_includes p1RelToP2 ''is mother of'') \<and>
                 opt_includes p2RelToP3 ''is spouse of'' then
           Some (sentence startPerson
                   (genderTerm (gender startPerson) ''father-in-law'' ''mother-in-law'' ''parent-in-law'')
                   endPerson)
         else if opt_includes p1RelToP2 ''is spouse of'' \<and> opt_startsWith p2RelToP3 ''is child of'' then
           Some (sentence startPerson
                   (genderTerm (gender startPerson) ''son-in-law'' ''daughter-in-law'' ''child-in-law'')
                   endPerson)
         else if opt_includes p1RelToP2 ''is sibling of'' \<and>
                 (opt_includes p2RelToP3 ''is father of'' \<or> opt_includes p2RelToP3 ''is mother of'') then
           Some (sentence startPerson
                   (genderTerm (gender startPerson) ''uncle'' ''aunt'' ''aunt/uncle'')
                   endPerson)
         else if opt_startsWith p1RelToP2 ''is child of'' \<and> opt_includes p2RelToP3 ''is sibling of'' then
           Some (sentence startPerson
                   (genderTerm (gender startPerson) ''nephew'' ''niece'' ''nephew/niece'')
                   endPerson)
         else None)"

text \<open>
  The argument \<open>path\<close> is \<^verbatim>\<open>RelationshipPath | null\<close>. A path of length 2 whose
  first label is not truthy falls out of the first block, fails the test of the
  second and reaches the final \<^verbatim>\<open>return null\<close>. The parameter \<open>allPeople\<close> is
  not read by the source.
\<close>

definition deriveComplexRelationship :: "RelationshipPath option \<Rightarrow> Person list \<Rightarrow> string option" where
  "deriveComplexRelationship path allPeople =
     (case path of
        None \<Rightarrow> None
      | Some p \<Rightarrow>
          if length p < 2 then None
          else (case (if length p = 2 then direct_relationship p else None) of
                  Some s \<Rightarrow> Some s
                | None \<Rightarrow> (if length p = 3 then one_intermediate p else None)))"

section \<open>The kinship graph builder\<close>

text \<open>\<^verbatim>\<open>people.find(p => p.id === i)\<close>: the first person with that id.\<close>

definition find_person :: "Person list \<Rightarrow> string \<Rightarrow> Person option" where
  "find_person people i = List.find (\<lambda>p. id_P p = i) people"

text \<open>
  The \<^verbatim>\<open>Map\<close> from person ids to adjacency arrays is an association list with
  distinct keys: \<^verbatim>\<open>adj.set(k, v)\<close> replaces the value of a present key in place
  and appends an absent one, which is \<open>AList.update\<close>; \<^verbatim>\<open>adj.get(k)\<close> is
  \<open>map_of\<close>.
\<close>

type_synonym Adjacency = "(string \<times> AdjEntry list) list"

text \<open>\<^verbatim>\<open>for (const person of people) adj.set(person.id, [])\<close>\<close>

fun init_adj :: "Person list \<Rightarrow> Adjacency \<Rightarrow> Adjacency" where
  "init_adj [] adj = adj"
| "init_adj (p # ps) adj = init_adj ps (AList.update (id_P p) [] adj)"

text \<open>
  \<^verbatim>\<open>adj.get(k)!.push(e)\<close>: the array stored under \<open>k\<close> grows at its end; with no
  array under \<open>k\<close> the call throws.
\<close>

definition adj_push :: "Adjacency \<Rightarrow> string \<Rightarrow> AdjEntry \<Rightarrow> error + Adjacency" where
  "adj_push adj k e =
     (case map_of adj k of
        None \<Rightarrow> Inl TypeError
      | Some es \<Rightarrow> Inr (AList.update k (es @ [e]) adj))"

text \<open>
  The two pushes every case of the \<^verbatim>\<open>switch\<close> makes: the entry from
  \<open>fromPersonId\<close> to \<open>toPersonId\<close> with the forward label, then the entry back
  with the reverse label, both carrying the relationship's id.
\<close>

definition push_both :: "Adjacency \<Rightarrow> StoredRelationship \<Rightarrow> string \<Rightarrow> string \<Rightarrow> error + Adjacency" where
  "push_both adj rel forward backward =
     (case adj_push adj (fromPersonId rel)
             \<lparr>personId = toPersonId rel, relationshipLabel = forward,
              relationshipId_E = Some (id_R rel)\<rparr> of
        Inl e \<Rightarrow> Inl e
      | Inr adj' \<Rightarrow>
          adj_push adj' (toPersonId rel)
            \<lparr>personId = fromPersonId rel, relationshipLabel = backward,
             relationshipId_E = Some (id_R rel)\<rparr>)"

text \<open>One round of \<^verbatim>\<open>for (const rel of relationships)\<close>.\<close>

definition add_relationship :: "Person list \<Rightarrow> StoredRelationship \<Rightarrow> Adjacency \<Rightarrow> error + Adjacency" where
  "add_relationship people rel adj =
     (case find_person people (fromPersonId rel) of
        None \<Rightarrow> Inr adj
      | Some fromPerson \<Rightarrow>
          (case find_person people (toPersonId rel) of
             None \<Rightarrow> Inr adj
           | Some toPerson \<Rightarrow>
               (case type_R rel of
                  FATHER \<Rightarrow>
                    push_both adj rel ''is father of''
                      (''is child of (father: '' @ name fromPerson @ '')'')
                | MOTHER \<Rightarrow>
                    push_both adj rel ''is mother of''
                      (''is child of (mother: '' @ name fromPerson @ '')'')
                | SPOUSE \<Rightarrow> push_both adj rel ''is spouse of'' ''is spouse of''
                | SIBLING \<Rightarrow> push_both adj rel ''is sibling of'' ''is sibling of'')))"

fun build_adj :: "Person list \<Rightarrow> StoredRelationship list \<Rightarrow> Adjacency \<Rightarrow> error + Adjacency" where
  "build_adj people [] adj = Inr adj"
| "build_adj people (rel # rels) adj =
     (case add_relationship people rel adj of
        Inl e \<Rightarrow> Inl e
      | Inr adj' \<Rightarrow> build_adj people rels adj')"

section \<open>The shortest path search\<close>

text \<open>\<^verbatim>\<open>adj.get(personId) || []\<close>\<close>

definition neighbors_of :: "Adjacency \<Rightarrow> string \<Rightarrow> AdjEntry list" where
  "neighbors_of adj pid = (case map_of adj pid of None \<Rightarrow> [] | Some ns \<Rightarrow> ns)"

text \<open>
  The new path of the inner loop: the last segment of \<open>currentPath\<close> gets the
  label and the relationship id of the entry taken, and a bare segment for the
  neighbour follows. Every path in the queue is non-empty (\<open>queue_paths_nonempty\<close>
  below), so \<open>last\<close> and \<open>butlast\<close> are only applied where
  \<^verbatim>\<open>currentPath[currentPath.length - 1]\<close> and \<^verbatim>\<open>currentPath.slice(0, -1)\<close> are
  defined.
\<close>

definition extend_path :: "RelationshipPath \<Rightarrow> AdjEntry \<Rightarrow> Person \<Rightarrow> RelationshipPath" where
  "extend_path currentPath neighbor neighborPerson =
     (let lastSegmentInPath = last currentPath;
          updatedLastSegment =
            lastSegmentInPath\<lparr>relationshipToNext := Some (relationshipLabel neighbor),
                              relationshipId := relationshipId_E neighbor\<rparr>
      in butlast currentPath @
           [updatedLastSegment,
            \<lparr>person = neighborPerson, relationshipToNext = None, relationshipId = None\<rparr>])"

text \<open>
  \<^verbatim>\<open>for (const neighbor of neighbors)\<close>, on the state it changes: the visited set
  and the queue. An unvisited neighbour is marked before its person is looked
  up, and queued only when the person is found.
\<close>

fun visit_neighbors ::
  "Person list \<Rightarrow> RelationshipPath \<Rightarrow> AdjEntry list \<Rightarrow>
   string set \<times> (string \<times> RelationshipPath) list \<Rightarrow>
   string set \<times> (string \<times> RelationshipPath) list" where
  "visit_neighbors people currentPath [] (visited, queue) = (visited, queue)"
| "visit_neighbors people currentPath (neighbor # neighbors) (visited, queue) =
     (if personId neighbor \<notin> visited then
        (case find_person people (personId neighbor) of
           None \<Rightarrow>
             visit_neighbors people currentPath neighbors
               (insert (personId neighbor) visited, queue)
         | Some neighborPerson \<Rightarrow>
             visit_neighbors people currentPath neighbors
               (insert (personId neighbor) visited,
                queue @ [(personId neighbor, extend_path currentPath neighbor neighborPerson)]))
      else visit_neighbors people currentPath neighbors (visited, queue))"

text \<open>Every person id some adjacency list of \<open>adj\<close> points to.\<close>

definition adj_targets :: "Adjacency \<Rightarrow> string set" where
  "adj_targets adj = (\<Union>(k, es) \<in> set adj. personId ` set es)"

text \<open>
  \<^verbatim>\<open>while (queue.length > 0)\<close>: the head is shifted off; it is returned when
  it is the end person, and its neighbours are visited otherwise. Each round
  either shortens the queue or marks a target of \<open>adj\<close> that was unmarked, one
  for each item it appends.
\<close>

function bfs_loop ::
  "Person list \<Rightarrow> Adjacency \<Rightarrow> string \<Rightarrow> string set \<Rightarrow>
   (string \<times> RelationshipPath) list \<Rightarrow> RelationshipPath option" where
  "bfs_loop people adj endPersonId visited [] = None"
| "bfs_loop people adj endPersonId visited ((pid, currentPath) # queue) =
     (if pid = endPersonId then Some currentPath
      else (case visit_neighbors people currentPath (neighbors_of adj pid) (visited, queue) of
              (visited', queue') \<Rightarrow> bfs_loop people adj endPersonId visited' queue'))"
  by pat_completeness auto
termination
proof (relation "measure (\<lambda>(people, adj, endPersonId, visited, queue).
                    card (adj_targets adj - visited) + length queue)", goal_cases)
  case 1
  show ?case by simp
next
  case (2 people adj endPersonId visited pid currentPath queue visited' queue')
  have fin: "finite (adj_targets adj)"
    by (auto simp: adj_targets_def)
  have step: "personId ` set ns \<subseteq> adj_targets adj \<Longrightarrow>
              visit_neighbors people currentPath ns (vis, q) = (vis', q') \<Longrightarrow>
              card (adj_targets adj - vis') + length q' \<le> card (adj_targets adj - vis) + length q"
    for ns vis q vis' q'
  proof (induction ns arbitrary: vis q)
    case Nil
    then show ?case by simp
  next
    case (Cons n ns)
    show ?case
    proof (cases "personId n \<in> vis")
      case True
      with Cons show ?thesis by simp
    next
      case False
      from Cons.prems(1) have n_in: "personId n \<in> adj_targets adj" by simp
      have "card (adj_targets adj - insert (personId n) vis) < card (adj_targets adj - vis)"
        using fin n_in False by (intro psubset_card_mono) auto
      then have less: "Suc (card (adj_targets adj - insert (personId n) vis))
                         \<le> card (adj_targets adj - vis)"
        by simp
      from Cons.prems(1) have sub: "personId ` set ns \<subseteq> adj_targets adj" by simp
      show ?thesis
      proof (cases "find_person people (personId n)")
        case None
        with Cons.prems(2) False
        have "visit_neighbors people currentPath ns (insert (personId n) vis, q) = (vis', q')"
          by simp
        from Cons.IH [OF sub this] less show ?thesis by simp
      next
        case (Some np)
        with Cons.prems(2) False
        have "visit_neighbors people currentPath ns
                (insert (personId n) vis, q @ [(personId n, extend_path currentPath n np)])
              = (vis', q')"
          by simp
        from Cons.IH [OF sub this] less show ?thesis by simp
      qed
    qed
  qed
  have "personId ` set (neighbors_of adj pid) \<subseteq> adj_targets adj"
  proof
    fix w assume "w \<in> personId ` set (neighbors_of adj pid)"
    then obtain e where e: "e \<in> set (neighbors_of adj pid)" "w = personId e" by auto
    then obtain es where "map_of adj pid = Some es" "e \<in> set es"
      by (cases "map_of adj pid") (auto simp: neighbors_of_def)
    then have "(pid, es) \<in> set adj" "e \<in> set es" by (auto dest: map_of_SomeD)
    with e show "w \<in> adj_targets adj" by (force simp: adj_targets_def)
  qed
  moreover from 2
  have eq: "visit_neighbors people currentPath (neighbors_of adj pid) (visited, queue)
              = (visited', queue')"
    by simp
  ultimately
  have "card (adj_targets adj - visited') + length queue'
          \<le> card (adj_targets adj - visited) + length queue"
    by (rule step)
  then show ?case by (simp add: eq)
qed

text \<open>
  The exported search. The result is \<open>Inl\<close> where the source would throw,
  \<open>Inr None\<close> for \<^verbatim>\<open>null\<close> and \<open>Inr (Some path)\<close> for a path.
\<close>

definition findRelationshipPath ::
  "string \<Rightarrow> string \<Rightarrow> Person list \<Rightarrow> StoredRelationship list \<Rightarrow>
   error + RelationshipPath option" where
  "findRelationshipPath startPersonId endPersonId people relationships =
     (if startPersonId = endPersonId then
        (case find_person people startPersonId of
           None \<Rightarrow> Inr None
         | Some p \<Rightarrow> Inr (Some [\<lparr>person = p, relationshipToNext = None, relationshipId = None\<rparr>]))
      else
        (case build_adj people relationships (init_adj people []) of
           Inl e \<Rightarrow> Inl e
         | Inr adj \<Rightarrow>
             (case find_person people startPersonId of
                None \<Rightarrow> Inr None
              | Some startNode \<Rightarrow>
                  Inr (bfs_loop people adj endPersonId {startPersonId}
                         [(startPersonId,
                           [\<lparr>person = startNode, relationshipToNext = None,
                             relationshipId = None\<rparr>])]))))"

section \<open>Sample data (constants.ts)\<close>

definition mk_person :: "string \<Rightarrow> string \<Rightarrow> Gender \<Rightarrow> string \<Rightarrow> Person" where
  "mk_person i n g b =
     \<lparr>id_P = i, name = n, gender = g, birthDate = Some b, profilePicUrl = None\<rparr>"

definition mk_rel :: "string \<Rightarrow> string \<Rightarrow> string \<Rightarrow> DirectRelationshipType \<Rightarrow> StoredRelationship" where
  "mk_rel i f t ty = \<lparr>id_R = i, fromPersonId = f, toPersonId = t, type_R = ty\<rparr>"

definition INITIAL_PEOPLE :: "Person list" where
  "INITIAL_PEOPLE =
    [mk_person ''1'' ''John Doe'' male ''1970-05-15'',
     mk_person ''2'' ''Jane Smith'' female ''1972-08-20'',
     mk_person ''3'' ''Mike Doe'' male ''1995-01-10'',
     mk_person ''4'' ''Sarah Doe'' female ''1998-11-25'',
     mk_person ''5'' ''Robert Roe'' male ''1996-07-01'',
     mk_person ''6'' ''Emily Poe'' female ''2020-03-03'',
     mk_person ''7'' ''Chris Doe'' male ''1992-06-01'']"

definition INITIAL_RELATIONSHIPS :: "StoredRelationship list" where
  "INITIAL_RELATIONSHIPS =
    [mk_rel ''r1'' ''1'' ''2'' SPOUSE,
     mk_rel ''r2'' ''1'' ''3'' FATHER,
     mk_rel ''r3'' ''1'' ''4'' FATHER,
     mk_rel ''r9'' ''1'' ''7'' FATHER,
     mk_rel ''r4'' ''2'' ''3'' MOTHER,
     mk_rel ''r5'' ''2'' ''4'' MOTHER,
     mk_rel ''r10'' ''2'' ''7'' MOTHER,
     mk_rel ''r6'' ''4'' ''5'' SPOUSE,
     mk_rel ''r7'' ''5'' ''6'' FATHER,
     mk_rel ''r8'' ''4'' ''6'' MOTHER,
     mk_rel ''s1'' ''3'' ''4'' SIBLING,
     mk_rel ''s2'' ''3'' ''7'' SIBLING,
     mk_rel ''s3'' ''4'' ''7'' SIBLING]"

text \<open>A bare path segment, \<^verbatim>\<open>{ person }\<close>.\<close>

definition bare :: "Person \<Rightarrow> PathSegment" where
  "bare p = \<lparr>person = p, relationshipToNext = None, relationshipId = None\<rparr>"

text \<open>A segment with the label and relationship id of the hop that leaves it.\<close>

definition hop :: "Person \<Rightarrow> string \<Rightarrow> string \<Rightarrow> PathSegment" where
  "hop p l r = \<lparr>person = p, relationshipToNext = Some l, relationshipId = Some r\<rparr>"

text \<open>The path the search returns from Chris Doe to Emily Poe in the sample data.\<close>

definition chris_to_emily :: RelationshipPath where
  "chris_to_emily =
     [hop (mk_person ''7'' ''Chris Doe'' male ''1992-06-01'') ''is sibling of'' ''s3'',
      hop (mk_person ''4'' ''Sarah Doe'' female ''1998-11-25'') ''is mother of'' ''r8'',
      bare (mk_person ''6'' ''Emily Poe'' female ''2020-03-03'')]"

text \<open>The direct paths the search returns between three persons of the sample data.\<close>

definition mike_to_john :: RelationshipPath where
  "mike_to_john =
     [hop (mk_person ''3'' ''Mike Doe'' male ''1995-01-10'')
        ''is child of (father: John Doe)'' ''r2'',
      bare (mk_person ''1'' ''John Doe'' male ''1970-05-15'')]"

definition mike_to_sarah :: RelationshipPath where
  "mike_to_sarah =
     [hop (mk_person ''3'' ''Mike Doe'' male ''1995-01-10'') ''is sibling of'' ''s1'',
      bare (mk_person ''4'' ''Sarah Doe'' female ''1998-11-25'')]"

definition john_to_mike :: RelationshipPath where
  "john_to_mike =
     [hop (mk_person ''1'' ''John Doe'' male ''1970-05-15'') ''is father of'' ''r2'',
      bare (mk_person ''3'' ''Mike Doe'' male ''1995-01-10'')]"

text \<open>
  The sample data in a transient state of editing: Dana Moe has been added
  and has no relationship yet, John Doe has a sibling link to himself, and one
  relationship still points to a person that was deleted.
\<close>

definition edited_people :: "Person list" where
  "edited_people = INITIAL_PEOPLE @ [mk_person ''8'' ''Dana Moe'' other ''1980-02-29'']"

definition edited_relationships :: "StoredRelationship list" where
  "edited_relationships =
     [mk_rel ''x1'' ''1'' ''1'' SIBLING, mk_rel ''x2'' ''8'' ''99'' SPOUSE] @ INITIAL_RELATIONSHIPS"

text \<open>
  A mother, her son and her husband. The mother's name carries a remark in
  parentheses.
\<close>

definition remark_in_law_people :: "Person list" where
  "remark_in_law_people =
    [mk_person ''k'' ''Kid'' male ''2005-01-01'',
     mk_person ''m'' ''Ma (is mother of Kid)'' female ''1975-01-01'',
     mk_person ''s'' ''Sam'' male ''1974-01-01'']"

definition remark_in_law_relationships :: "StoredRelationship list" where
  "remark_in_law_relationships =
    [mk_rel ''r1'' ''m'' ''k'' MOTHER,
     mk_rel ''r2'' ''m'' ''s'' SPOUSE]"

text \<open>
  The adjacency map the builder makes of the edited data, and the queue after
  the first round of the search that starts at John Doe.
\<close>

definition edited_adj :: Adjacency where
  "edited_adj =
     (case build_adj edited_people edited_relationships (init_adj edited_people []) of
        Inl e \<Rightarrow> []
      | Inr adj \<Rightarrow> adj)"

definition john :: Person where
  "john = mk_person ''1'' ''John Doe'' male ''1970-05-15''"

definition first_round :: "(string \<times> RelationshipPath) list" where
  "first_round =
     [(''2'', [hop john ''is spouse of'' ''r1'',
              bare (mk_person ''2'' ''Jane Smith'' female ''1972-08-20'')]),
      (''3'', [hop john ''is father of'' ''r2'',
              bare (mk_person ''3'' ''Mike Doe'' male ''1995-01-10'')]),
      (''4'', [hop john ''is father of'' ''r3'',
              bare (mk_person ''4'' ''Sarah Doe'' female ''1998-11-25'')]),
      (''7'', [hop john ''is father of'' ''r9'',
              bare (mk_person ''7'' ''Chris Doe'' male ''1992-06-01'')])]"

text \<open>
  A family in which two equally short chains join Ann and Dee: Ann is a
  sibling of Ben and the father of Cal, and Dee is the spouse of both Ben and
  Cal in the records. The sibling relationship was entered first.
\<close>

definition tie_people :: "Person list" where
  "tie_people =
    [mk_person ''a'' ''Ann'' male ''1960-01-01'',
     mk_person ''b'' ''Ben'' male ''1962-01-01'',
     mk_person ''c'' ''Cal'' male ''1985-01-01'',
     mk_person ''d'' ''Dee'' female ''1986-01-01'']"

definition tie_relationships :: "StoredRelationship list" where
  "tie_relationships =
    [mk_rel ''r1'' ''a'' ''b'' SIBLING,
     mk_rel ''r2'' ''a'' ''c'' FATHER,
     mk_rel ''r3'' ''b'' ''d'' SPOUSE,
     mk_rel ''r4'' ''c'' ''d'' SPOUSE]"

definition tie_adj :: Adjacency where
  "tie_adj =
     (case build_adj tie_people tie_relationships (init_adj tie_people []) of
        Inl e \<Rightarrow> []
      | Inr adj \<Rightarrow> adj)"

section \<open>Specification vocabulary\<close>

subsection \<open>Hop labels\<close>

text \<open>
  The child-of test of the classifier: a prefix test.
\<close>

definition indicates_child_of :: "string \<Rightarrow> bool" where
  "indicates_child_of l = startsWith l ''is child of''"

text \<open>
  The labels of the specification (section 4.1): the six forms a hop label
  takes, the two child-of forms carrying the parent's name, and the text of
  each.
\<close>

datatype hop_label =
  IsFatherOf | IsMotherOf | IsChildOfFather string | IsChildOfMother string
  | IsSpouseOf | IsSiblingOf

fun label_text :: "hop_label \<Rightarrow> string" where
  "label_text IsFatherOf = ''is father of''"
| "label_text IsMotherOf = ''is mother of''"
| "label_text (IsChildOfFather n) = ''is child of (father: '' @ n @ '')''"
| "label_text (IsChildOfMother n) = ''is child of (mother: '' @ n @ '')''"
| "label_text IsSpouseOf = ''is spouse of''"
| "label_text IsSiblingOf = ''is sibling of''"

text \<open>The relation a label indicates.\<close>

datatype hop_kind = parent_of | child_of | spouse_of | sibling_of

fun kind_of :: "hop_label \<Rightarrow> hop_kind" where
  "kind_of IsFatherOf = parent_of"
| "kind_of IsMotherOf = parent_of"
| "kind_of (IsChildOfFather n) = child_of"
| "kind_of (IsChildOfMother n) = child_of"
| "kind_of IsSpouseOf = spouse_of"
| "kind_of IsSiblingOf = sibling_of"

text \<open>
  The sentence the specification gives for a direct edge with label \<open>h\<close> from
  the person named \<open>X\<close> to the person named \<open>Y\<close>: child-of and sibling have
  their own sentences, every other label is echoed between the two names.
\<close>

definition direct_sentence :: "string \<Rightarrow> hop_label \<Rightarrow> string \<Rightarrow> string" where
  "direct_sentence X h Y =
     (case kind_of h of
        child_of \<Rightarrow> X @ '' is child of '' @ Y @ ''.''
      | sibling_of \<Rightarrow> X @ '' and '' @ Y @ '' are siblings.''
      | _ \<Rightarrow> X @ '' '' @ label_text h @ '' '' @ Y @ ''.'')"

text \<open>
  The table of the specification (section 4.3) for a pair of consecutive hops:
  the male, female and neutral term of the six listed pairs, and no term for
  any other pair.
\<close>

fun table_term :: "hop_kind \<Rightarrow> hop_kind \<Rightarrow> (string \<times> string \<times> string) option" where
  "table_term parent_of parent_of = Some (''grandfather'', ''grandmother'', ''grandparent'')"
| "table_term child_of child_of = Some (''grandson'', ''granddaughter'', ''grandchild'')"
| "table_term parent_of spouse_of = Some (''father-in-law'', ''mother-in-law'', ''parent-in-law'')"
| "table_term spouse_of child_of = Some (''son-in-law'', ''daughter-in-law'', ''child-in-law'')"
| "table_term sibling_of parent_of = Some (''uncle'', ''aunt'', ''aunt/uncle'')"
| "table_term child_of sibling_of = Some (''nephew'', ''niece'', ''nephew/niece'')"
| "table_term hop1 hop2 = None"

subsection \<open>What the builder stores\<close>

text \<open>
  The label of the entry a relationship of each kind puts in the list of its
  \<open>fromPersonId\<close>, and the label of the entry it puts in the list of its
  \<open>toPersonId\<close>; \<open>n\<close> is the name of the person found for \<open>fromPersonId\<close>.
\<close>

definition forward_label :: "DirectRelationshipType \<Rightarrow> string" where
  "forward_label t =
     (case t of FATHER \<Rightarrow> ''is father of'' | MOTHER \<Rightarrow> ''is mother of''
      | SPOUSE \<Rightarrow> ''is spouse of'' | SIBLING \<Rightarrow> ''is sibling of'')"

definition backward_label :: "DirectRelationshipType \<Rightarrow> string \<Rightarrow> string" where
  "backward_label t n =
     (case t of FATHER \<Rightarrow> ''is child of (father: '' @ n @ '')''
      | MOTHER \<Rightarrow> ''is child of (mother: '' @ n @ '')''
      | SPOUSE \<Rightarrow> ''is spouse of'' | SIBLING \<Rightarrow> ''is sibling of'')"

definition forward_entry :: "StoredRelationship \<Rightarrow> AdjEntry" where
  "forward_entry rel =
     \<lparr>personId = toPersonId rel, relationshipLabel = forward_label (type_R rel),
      relationshipId_E = Some (id_R rel)\<rparr>"

definition backward_entry :: "StoredRelationship \<Rightarrow> Person \<Rightarrow> AdjEntry" where
  "backward_entry rel fromPerson =
     \<lparr>personId = fromPersonId rel,
      relationshipLabel = backward_label (type_R rel) (name fromPerson),
      relationshipId_E = Some (id_R rel)\<rparr>"

text \<open>
  The entries one relationship adds to the list of person \<open>u\<close>, in the order
  of the two pushes: none when an endpoint is not found.
\<close>

definition rel_entries :: "Person list \<Rightarrow> StoredRelationship \<Rightarrow> string \<Rightarrow> AdjEntry list" where
  "rel_entries people rel u =
     (case find_person people (fromPersonId rel) of
        None \<Rightarrow> []
      | Some fromPerson \<Rightarrow>
          (case find_person people (toPersonId rel) of
             None \<Rightarrow> []
           | Some toPerson \<Rightarrow>
               (if fromPersonId rel = u then [forward_entry rel] else []) @
               (if toPersonId rel = u then [backward_entry rel fromPerson] else [])))"

text \<open>The list of person \<open>u\<close> after a pass over \<open>rels\<close> in input order.\<close>

definition adjacency_of :: "Person list \<Rightarrow> StoredRelationship list \<Rightarrow> string \<Rightarrow> AdjEntry list" where
  "adjacency_of people rels u = concat (map (\<lambda>rel. rel_entries people rel u) rels)"

subsection \<open>A family whose names quote a relationship\<close>

text \<open>
  Three generations: Cy is the father of Bo, Bo is the father of Al. Two of the
  names carry a remark in parentheses.
\<close>

definition remark_people :: "Person list" where
  "remark_people =
    [mk_person ''a'' ''Al'' male ''2001-01-01'',
     mk_person ''b'' ''Bo (is father of Al)'' male ''1971-01-01'',
     mk_person ''c'' ''Cy (is father of Bo)'' male ''1941-01-01'']"

definition remark_relationships :: "StoredRelationship list" where
  "remark_relationships =
    [mk_rel ''r1'' ''b'' ''a'' FATHER,
     mk_rel ''r2'' ''c'' ''b'' FATHER]"

subsection \<open>Graphs, walks and found paths\<close>

text \<open>The directed edges of an adjacency map.\<close>

definition adj_edge :: "Adjacency \<Rightarrow> string \<Rightarrow> string \<Rightarrow> bool" where
  "adj_edge adj u v = (v \<in> personId ` set (neighbors_of adj u))"

text \<open>
  The undirected graph of the specification: two person ids are linked when
  some relationship of the input joins them, in either direction, and both its
  endpoints are found in the person list.
\<close>

definition linked :: "Person list \<Rightarrow> StoredRelationship list \<Rightarrow> string \<Rightarrow> string \<Rightarrow> bool" where
  "linked people rels u v =
     (\<exists>rel \<in> set rels.
        find_person people (fromPersonId rel) \<noteq> None \<and>
        find_person people (toPersonId rel) \<noteq> None \<and>
        (fromPersonId rel = u \<and> toPersonId rel = v \<or>
         fromPersonId rel = v \<and> toPersonId rel = u))"

text \<open>
  A walk from \<open>s\<close> to \<open>t\<close> along the edges \<open>E\<close>: the list of the ids it
  passes, so a walk of \<open>n\<close> ids has \<open>n - 1\<close> hops.
\<close>

definition walk :: "(string \<Rightarrow> string \<Rightarrow> bool) \<Rightarrow> string \<Rightarrow> string \<Rightarrow> string list \<Rightarrow> bool" where
  "walk E s t w = (w \<noteq> [] \<and> hd w = s \<and> last w = t \<and> successively E w)"

definition path_ids :: "RelationshipPath \<Rightarrow> string list" where
  "path_ids p = map (\<lambda>seg. id_P (person seg)) p"

text \<open>
  A path that records a traversal of \<open>adj\<close>: every segment holds the person
  found for its id; every segment but the last holds the label and the
  relationship id of the first entry, in the list of its person, that points to
  the person of the next segment; the last segment holds neither.
\<close>

fun traversal :: "Person list \<Rightarrow> Adjacency \<Rightarrow> RelationshipPath \<Rightarrow> bool" where
  "traversal people adj [] = False"
| "traversal people adj [a] =
     (find_person people (id_P (person a)) = Some (person a) \<and>
      relationshipToNext a = None \<and> relationshipId a = None)"
| "traversal people adj (a # b # rest) =
     (find_person people (id_P (person a)) = Some (person a) \<and>
      (case List.find (\<lambda>e. personId e = id_P (person b))
              (neighbors_of adj (id_P (person a))) of
         None \<Rightarrow> False
       | Some entry \<Rightarrow>
           relationshipToNext a = Some (relationshipLabel entry) \<and>
           relationshipId a = relationshipId_E entry) \<and>
      traversal people adj (b # rest))"

subsection \<open>Vocabulary of the search invariant\<close>

text \<open>
  The entries of a list that the inner loop queues when it starts with the
  visited set \<open>vis\<close>: those whose target is not visited when they are reached.
\<close>

fun fresh :: "string set \<Rightarrow> AdjEntry list \<Rightarrow> AdjEntry list" where
  "fresh vis [] = []"
| "fresh vis (n # ns) =
     (if personId n \<in> vis then fresh vis ns
      else n # fresh (insert (personId n) vis) ns)"

text \<open>Every target of the adjacency map is the id of a person.\<close>

definition adj_closed :: "Person list \<Rightarrow> Adjacency \<Rightarrow> bool" where
  "adj_closed people adj =
     (\<forall>u. \<forall>n \<in> set (neighbors_of adj u). find_person people (personId n) \<noteq> None)"

text \<open>
  A queue item \<open>(v, p)\<close> is sound: \<open>p\<close> records a traversal from \<open>s\<close> to
  \<open>v\<close> through distinct visited ids, and no walk from \<open>s\<close> to \<open>v\<close> is shorter.
\<close>

definition item_ok ::
  "Person list \<Rightarrow> Adjacency \<Rightarrow> string \<Rightarrow> string set \<Rightarrow> string \<times> RelationshipPath \<Rightarrow> bool" where
  "item_ok people adj s vis it =
     (fst it \<in> vis \<and> traversal people adj (snd it) \<and>
      hd (path_ids (snd it)) = s \<and> last (path_ids (snd it)) = fst it \<and>
      distinct (path_ids (snd it)) \<and> set (path_ids (snd it)) \<subseteq> vis \<and>
      (\<forall>w. walk (adj_edge adj) s (fst it) w \<longrightarrow> length (snd it) \<le> length w))"

text \<open>
  The invariant of the \<^verbatim>\<open>while\<close> loop. The start is visited; the queue holds
  sound items in order of path length, none more than one hop longer than the
  head; every id within the head's distance of the start is visited; a visited
  id that is no longer queued is not the end and has all its neighbours visited.
\<close>

definition bfs_inv ::
  "Person list \<Rightarrow> Adjacency \<Rightarrow> string \<Rightarrow> string \<Rightarrow> string set \<Rightarrow>
   (string \<times> RelationshipPath) list \<Rightarrow> bool" where
  "bfs_inv people adj s e vis q =
     (s \<in> vis \<and>
      (\<forall>it \<in> set q. item_ok people adj s vis it) \<and>
      sorted (map (\<lambda>it. length (snd it)) q) \<and>
      (\<forall>it \<in> set q. length (snd it) \<le> Suc (length (snd (hd q)))) \<and>
      (\<forall>x w. q \<noteq> [] \<longrightarrow> walk (adj_edge adj) s x w \<longrightarrow>
             length w \<le> length (snd (hd q)) \<longrightarrow> x \<in> vis) \<and>
      (\<forall>x \<in> vis. x \<notin> fst ` set q \<longrightarrow> x \<noteq> e \<and> (\<forall>y. adj_edge adj x y \<longrightarrow> y \<in> vis)))"

text \<open>The item the inner loop queues for an entry.\<close>

definition queued :: "Person list \<Rightarrow> RelationshipPath \<Rightarrow> AdjEntry \<Rightarrow> string \<times> RelationshipPath" where
  "queued people currentPath n =
     (personId n, extend_path currentPath n (the (find_person people (personId n))))"

subsection \<open>Exploration order\<close>

text \<open>
  The position, in an adjacency list, of its first entry that points to \<open>v\<close>
  (the length of the list when none does).
\<close>

definition pos_in :: "AdjEntry list \<Rightarrow> string \<Rightarrow> nat" where
  "pos_in ns v = length (takeWhile (\<lambda>n. personId n \<noteq> v) ns)"

text \<open>
  The choices along a walk: for each hop, the position of the next id in the
  adjacency list of the current one. Sequences of choices are compared
  lexicographically; walks of equal length from the same start are explored in
  that order.
\<close>

fun edge_positions :: "(string \<Rightarrow> AdjEntry list) \<Rightarrow> string list \<Rightarrow> nat list" where
  "edge_positions nbrs (u # v # rest) = pos_in (nbrs u) v # edge_positions nbrs (v # rest)"
| "edge_positions nbrs [u] = []"
| "edge_positions nbrs [] = []"

text \<open>The choices recorded by a queued path.\<close>

definition choices :: "Adjacency \<Rightarrow> RelationshipPath \<Rightarrow> nat list" where
  "choices adj p = edge_positions (neighbors_of adj) (path_ids p)"

text \<open>The order of the queue: shorter paths first, then earlier choices.\<close>

definition explored_before :: "Adjacency \<Rightarrow> string \<times> RelationshipPath \<Rightarrow> string \<times> RelationshipPath \<Rightarrow> bool" where
  "explored_before adj a b =
     (length (snd a) < length (snd b) \<or>
      length (snd a) = length (snd b) \<and> choices adj (snd a) < choices adj (snd b))"

text \<open>
  The part of the loop invariant that concerns ties. The queue is in
  exploration order; the path of every item makes the earliest choices among
  the walks of its length to its id; and an item one hop longer than the head
  extends a path explored before the head.
\<close>

definition order_inv :: "Adjacency \<Rightarrow> string \<Rightarrow> (string \<times> RelationshipPath) list \<Rightarrow> bool" where
  "order_inv adj s q =
     (sorted_wrt (explored_before adj) q \<and>
      (\<forall>it \<in> set q. \<forall>w. walk (adj_edge adj) s (fst it) w \<longrightarrow> length w = length (snd it) \<longrightarrow>
         choices adj (snd it) \<le> edge_positions (neighbors_of adj) w) \<and>
      (\<forall>it \<in> set q. length (snd it) = Suc (length (snd (hd q))) \<longrightarrow>
         butlast (choices adj (snd it)) < choices adj (snd (hd q))))"

section \<open>Properties\<close>

subsection \<open>Looking a person up\<close>

lemma find_person_Some:
  "find_person people i = Some p \<Longrightarrow> p \<in> set people \<and> id_P p = i"
  by (auto simp: find_person_def find_Some_iff)

lemma find_person_None: "find_person people i = None \<longleftrightarrow> i \<notin> id_P ` set people"
  by (auto simp: find_person_def find_None_iff)

subsection \<open>The adjacency map in closed form\<close>

text \<open>
  The builder never throws, and the list it stores for a person is the
  concatenation, in input order, of what each relationship contributes.
\<close>

lemma map_of_init_adj:
  "map_of (init_adj people adj0) u =
     (if u \<in> id_P ` set people then Some [] else map_of adj0 u)"
  by (induction people arbitrary: adj0) (auto simp: update_conv')

lemma adj_push_present:
  assumes "map_of adj k = Some es"
  shows "\<exists>adj'. adj_push adj k e = Inr adj' \<and> map_of adj' = (map_of adj)(k \<mapsto> es @ [e])"
  using assms by (simp add: adj_push_def update_conv')

lemma push_both_present:
  assumes "map_of adj (fromPersonId rel) \<noteq> None" "map_of adj (toPersonId rel) \<noteq> None"
  shows "\<exists>adj'. push_both adj rel f b = Inr adj' \<and>
           (\<forall>u. map_of adj' u =
              map_option (\<lambda>es. es
                 @ (if fromPersonId rel = u
                    then [\<lparr>personId = toPersonId rel, relationshipLabel = f,
                           relationshipId_E = Some (id_R rel)\<rparr>] else [])
                 @ (if toPersonId rel = u
                    then [\<lparr>personId = fromPersonId rel, relationshipLabel = b,
                           relationshipId_E = Some (id_R rel)\<rparr>] else []))
                (map_of adj u))"
proof -
  from assms obtain es1 where es1: "map_of adj (fromPersonId rel) = Some es1" by auto
  from adj_push_present [OF es1] obtain adj1 where
    a1: "adj_push adj (fromPersonId rel)
           \<lparr>personId = toPersonId rel, relationshipLabel = f, relationshipId_E = Some (id_R rel)\<rparr>
         = Inr adj1"
    and m1: "map_of adj1 = (map_of adj)(fromPersonId rel \<mapsto> es1 @
           [\<lparr>personId = toPersonId rel, relationshipLabel = f, relationshipId_E = Some (id_R rel)\<rparr>])"
    by blast
  from assms(2) m1 obtain es2 where es2: "map_of adj1 (toPersonId rel) = Some es2"
    by (cases "toPersonId rel = fromPersonId rel") auto
  from adj_push_present [OF es2] obtain adj2 where
    a2: "adj_push adj1 (toPersonId rel)
           \<lparr>personId = fromPersonId rel, relationshipLabel = b, relationshipId_E = Some (id_R rel)\<rparr>
         = Inr adj2"
    and m2: "map_of adj2 = (map_of adj1)(toPersonId rel \<mapsto> es2 @
           [\<lparr>personId = fromPersonId rel, relationshipLabel = b, relationshipId_E = Some (id_R rel)\<rparr>])"
    by blast
  have "push_both adj rel f b = Inr adj2"
    by (simp add: push_both_def a1 a2)
  moreover have "map_of adj2 u =
              map_option (\<lambda>es. es
                 @ (if fromPersonId rel = u
                    then [\<lparr>personId = toPersonId rel, relationshipLabel = f,
                           relationshipId_E = Some (id_R rel)\<rparr>] else [])
                 @ (if toPersonId rel = u
                    then [\<lparr>personId = fromPersonId rel, relationshipLabel = b,
                           relationshipId_E = Some (id_R rel)\<rparr>] else []))
                (map_of adj u)" for u
    using es1 es2 by (auto simp: m1 m2 option.map_ident split: if_splits)
  ultimately show ?thesis by blast
qed

lemma add_relationship_closed:
  assumes "id_P ` set people \<subseteq> dom (map_of adj)"
  shows "\<exists>adj'. add_relationship people rel adj = Inr adj' \<and>
           (\<forall>u. map_of adj' u = map_option (\<lambda>es. es @ rel_entries people rel u) (map_of adj u))"
proof (cases "find_person people (fromPersonId rel)")
  case None
  then show ?thesis
    by (simp add: add_relationship_def rel_entries_def option.map_ident)
next
  case fp: (Some fromPerson)
  show ?thesis
  proof (cases "find_person people (toPersonId rel)")
    case None
    with fp show ?thesis
      by (simp add: add_relationship_def rel_entries_def option.map_ident)
  next
    case tp: (Some toPerson)
    from fp tp assms have dom: "map_of adj (fromPersonId rel) \<noteq> None"
      "map_of adj (toPersonId rel) \<noteq> None"
      by (auto dest!: find_person_Some)
    have ar: "add_relationship people rel adj =
                push_both adj rel (forward_label (type_R rel))
                  (backward_label (type_R rel) (name fromPerson))"
      using fp tp
      by (cases "type_R rel")
         (simp_all add: add_relationship_def forward_label_def backward_label_def)
    have re: "rel_entries people rel u =
                (if fromPersonId rel = u
                 then [\<lparr>personId = toPersonId rel,
                        relationshipLabel = forward_label (type_R rel),
                        relationshipId_E = Some (id_R rel)\<rparr>] else []) @
                (if toPersonId rel = u
                 then [\<lparr>personId = fromPersonId rel,
                        relationshipLabel = backward_label (type_R rel) (name fromPerson),
                        relationshipId_E = Some (id_R rel)\<rparr>] else [])" for u
      using fp tp by (simp add: rel_entries_def forward_entry_def backward_entry_def)
    from push_both_present [OF dom, of "forward_label (type_R rel)"
                              "backward_label (type_R rel) (name fromPerson)"]
    show ?thesis
      unfolding ar re .
  qed
qed

lemma build_adj_closed:
  assumes "id_P ` set people \<subseteq> dom (map_of adj0)"
  shows "\<exists>adj. build_adj people rels adj0 = Inr adj \<and>
           (\<forall>u. map_of adj u =
              map_option (\<lambda>es. es @ adjacency_of people rels u) (map_of adj0 u))"
  using assms
proof (induction rels arbitrary: adj0)
  case Nil
  then show ?case by (simp add: adjacency_of_def option.map_ident)
next
  case (Cons rel rels)
  from add_relationship_closed [OF Cons.prems, of rel] obtain adj1 where
    a1: "add_relationship people rel adj0 = Inr adj1"
    and m1: "\<And>u. map_of adj1 u = map_option (\<lambda>es. es @ rel_entries people rel u) (map_of adj0 u)"
    by blast
  from Cons.prems m1 have "id_P ` set people \<subseteq> dom (map_of adj1)"
    by (auto simp: dom_def)
  from Cons.IH [OF this] obtain adj where
    a: "build_adj people rels adj1 = Inr adj"
    and m: "\<And>u. map_of adj u = map_option (\<lambda>es. es @ adjacency_of people rels u) (map_of adj1 u)"
    by blast
  have "map_of adj u = map_option (\<lambda>es. es @ adjacency_of people (rel # rels) u) (map_of adj0 u)" for u
    by (simp add: m m1 option.map_comp comp_def adjacency_of_def)
  with a a1 show ?case by simp
qed

lemma rel_entries_absent:
  "find_person people u = None \<Longrightarrow> rel_entries people rel u = []"
  by (auto simp: rel_entries_def split: option.splits)

lemma adjacency_of_absent:
  "find_person people u = None \<Longrightarrow> adjacency_of people rels u = []"
  by (simp add: adjacency_of_def rel_entries_absent)

lemma build_adj_neighbors:
  "\<exists>adj. build_adj people rels (init_adj people []) = Inr adj \<and>
         (\<forall>u. neighbors_of adj u = adjacency_of people rels u)"
proof -
  have "id_P ` set people \<subseteq> dom (map_of (init_adj people []))"
    by (auto simp: map_of_init_adj dom_def)
  from build_adj_closed [OF this, of rels] obtain adj where
    a: "build_adj people rels (init_adj people []) = Inr adj"
    and m: "\<And>u. map_of adj u =
              map_option (\<lambda>es. es @ adjacency_of people rels u) (map_of (init_adj people []) u)"
    by blast
  have "neighbors_of adj u = adjacency_of people rels u" for u
  proof (cases "u \<in> id_P ` set people")
    case True
    then show ?thesis by (simp add: neighbors_of_def m map_of_init_adj)
  next
    case False
    then have "find_person people u = None" by (simp add: find_person_None)
    with False show ?thesis
      by (simp add: neighbors_of_def m map_of_init_adj adjacency_of_absent)
  qed
  with a show ?thesis by blast
qed

subsection \<open>Search from a person to the same person\<close>

text \<open>
  C5. \<open>findRelationshipPath X X\<close> returns the single bare segment of person
  \<open>X\<close> (no label, no relationship id) exactly when a person with id \<open>X\<close> is in
  the person set, and \<^verbatim>\<open>null\<close> exactly when there is none. The person is the
  first of the list with that id.
\<close>

theorem findRelationshipPath_same_person:
  "((\<exists>p. p \<in> set people \<and> id_P p = X \<and>
         findRelationshipPath X X people relationships =
           Inr (Some [\<lparr>person = p, relationshipToNext = None, relationshipId = None\<rparr>]))
      \<longleftrightarrow> X \<in> id_P ` set people) \<and>
   (findRelationshipPath X X people relationships = Inr None
      \<longleftrightarrow> X \<notin> id_P ` set people) \<and>
   (\<forall>p. find_person people X = Some p \<longrightarrow>
      findRelationshipPath X X people relationships =
        Inr (Some [\<lparr>person = p, relationshipToNext = None, relationshipId = None\<rparr>]))"
proof (cases "find_person people X")
  case None
  then have "X \<notin> id_P ` set people"
    by (simp add: find_person_None)
  with None show ?thesis
    by (auto simp: findRelationshipPath_def)
next
  case (Some p)
  then have "p \<in> set people" "id_P p = X"
    by (auto dest: find_person_Some)
  with Some show ?thesis
    by (auto simp: findRelationshipPath_def)
qed

theorem findRelationshipPath_same_person_witness:
  "''3'' \<in> id_P ` set INITIAL_PEOPLE \<and>
   findRelationshipPath ''3'' ''3'' INITIAL_PEOPLE INITIAL_RELATIONSHIPS =
     Inr (Some [bare (mk_person ''3'' ''Mike Doe'' male ''1995-01-10'')]) \<and>
   ''9'' \<notin> id_P ` set INITIAL_PEOPLE \<and>
   findRelationshipPath ''9'' ''9'' INITIAL_PEOPLE INITIAL_RELATIONSHIPS = Inr None"
proof -
  have in3: "''3'' \<in> id_P ` set INITIAL_PEOPLE"
    by (simp add: INITIAL_PEOPLE_def mk_person_def)
  have out9: "''9'' \<notin> id_P ` set INITIAL_PEOPLE"
    by (simp add: INITIAL_PEOPLE_def mk_person_def)
  have f3: "find_person INITIAL_PEOPLE ''3'' = Some (mk_person ''3'' ''Mike Doe'' male ''1995-01-10'')"
    by (simp add: find_person_def INITIAL_PEOPLE_def mk_person_def)
  from findRelationshipPath_same_person [of INITIAL_PEOPLE "''3''" INITIAL_RELATIONSHIPS] f3
  have "findRelationshipPath ''3'' ''3'' INITIAL_PEOPLE INITIAL_RELATIONSHIPS =
          Inr (Some [bare (mk_person ''3'' ''Mike Doe'' male ''1995-01-10'')])"
    by (simp add: bare_def)
  moreover
  from findRelationshipPath_same_person [of INITIAL_PEOPLE "''9''" INITIAL_RELATIONSHIPS] out9
  have "findRelationshipPath ''9'' ''9'' INITIAL_PEOPLE INITIAL_RELATIONSHIPS = Inr None"
    by blast
  ultimately show ?thesis using in3 out9 by blast
qed

subsection \<open>The string tests are prefix and substring\<close>

lemma startsWith_prefix: "startsWith s p \<longleftrightarrow> prefix p s"
  by (induction s p rule: startsWith.induct) auto

lemma includes_str_sublist: "includes_str s p \<longleftrightarrow> sublist p s"
  by (induction s) (simp_all add: startsWith_prefix sublist_Cons_right)

subsection \<open>Entries of one relationship\<close>

lemma rel_entries_in_adjacency:
  "rel \<in> set rels \<Longrightarrow> set (rel_entries people rel u) \<subseteq> set (adjacency_of people rels u)"
  by (auto simp: adjacency_of_def)

text \<open>
  C3. A relationship of the input whose two endpoints are found in the person
  list puts two entries in the adjacency map, both carrying its id: in the list
  of \<open>fromPersonId\<close> an entry to \<open>toPersonId\<close> labelled \<open>is father of\<close>,
  \<open>is mother of\<close>, \<open>is spouse of\<close> or \<open>is sibling of\<close> by its kind, and in the
  list of \<open>toPersonId\<close> an entry back to \<open>fromPersonId\<close> labelled
  \<open>is child of (father: NAME)\<close>, \<open>is child of (mother: NAME)\<close>, \<open>is spouse of\<close>
  or \<open>is sibling of\<close>, where NAME is the name of the person found for
  \<open>fromPersonId\<close>. The builder itself does not throw.
\<close>

theorem builder_emits_both_directions:
  assumes "rel \<in> set relationships"
    and "find_person people (fromPersonId rel) = Some fromPerson"
    and "find_person people (toPersonId rel) = Some toPerson"
  shows "\<exists>adj. build_adj people relationships (init_adj people []) = Inr adj \<and>
           \<lparr>personId = toPersonId rel,
            relationshipLabel =
              (case type_R rel of
                 FATHER \<Rightarrow> ''is father of'' | MOTHER \<Rightarrow> ''is mother of''
               | SPOUSE \<Rightarrow> ''is spouse of'' | SIBLING \<Rightarrow> ''is sibling of''),
            relationshipId_E = Some (id_R rel)\<rparr>
             \<in> set (neighbors_of adj (fromPersonId rel)) \<and>
           \<lparr>personId = fromPersonId rel,
            relationshipLabel =
              (case type_R rel of
                 FATHER \<Rightarrow> ''is child of (father: '' @ name fromPerson @ '')''
               | MOTHER \<Rightarrow> ''is child of (mother: '' @ name fromPerson @ '')''
               | SPOUSE \<Rightarrow> ''is spouse of'' | SIBLING \<Rightarrow> ''is sibling of''),
            relationshipId_E = Some (id_R rel)\<rparr>
             \<in> set (neighbors_of adj (toPersonId rel))"
proof -
  from build_adj_neighbors [of people relationships] obtain adj where
    a: "build_adj people relationships (init_adj people []) = Inr adj"
    and n: "\<And>u. neighbors_of adj u = adjacency_of people relationships u"
    by blast
  have "forward_entry rel \<in> set (rel_entries people rel (fromPersonId rel))"
    using assms(2,3) by (simp add: rel_entries_def)
  with rel_entries_in_adjacency [OF assms(1)]
  have f: "forward_entry rel \<in> set (neighbors_of adj (fromPersonId rel))"
    unfolding n by blast
  have "backward_entry rel fromPerson \<in> set (rel_entries people rel (toPersonId rel))"
    using assms(2,3) by (simp add: rel_entries_def)
  with rel_entries_in_adjacency [OF assms(1)]
  have b: "backward_entry rel fromPerson \<in> set (neighbors_of adj (toPersonId rel))"
    unfolding n by blast
  from a f b show ?thesis
    unfolding forward_entry_def backward_entry_def forward_label_def backward_label_def
    by blast
qed

theorem builder_emits_both_directions_witness:
  "mk_rel ''r2'' ''1'' ''3'' FATHER \<in> set INITIAL_RELATIONSHIPS \<and>
   find_person INITIAL_PEOPLE ''1'' = Some (mk_person ''1'' ''John Doe'' male ''1970-05-15'') \<and>
   find_person INITIAL_PEOPLE ''3'' = Some (mk_person ''3'' ''Mike Doe'' male ''1995-01-10'') \<and>
   (\<exists>adj. build_adj INITIAL_PEOPLE INITIAL_RELATIONSHIPS (init_adj INITIAL_PEOPLE []) = Inr adj \<and>
      \<lparr>personId = ''3'', relationshipLabel = ''is father of'',
       relationshipId_E = Some ''r2''\<rparr> \<in> set (neighbors_of adj ''1'') \<and>
      \<lparr>personId = ''1'', relationshipLabel = ''is child of (father: John Doe)'',
       relationshipId_E = Some ''r2''\<rparr> \<in> set (neighbors_of adj ''3''))"
proof -
  have r: "mk_rel ''r2'' ''1'' ''3'' FATHER \<in> set INITIAL_RELATIONSHIPS"
    by (simp add: INITIAL_RELATIONSHIPS_def)
  have f: "find_person INITIAL_PEOPLE (fromPersonId (mk_rel ''r2'' ''1'' ''3'' FATHER))
             = Some (mk_person ''1'' ''John Doe'' male ''1970-05-15'')"
    by (simp add: find_person_def INITIAL_PEOPLE_def mk_person_def mk_rel_def)
  have t: "find_person INITIAL_PEOPLE (toPersonId (mk_rel ''r2'' ''1'' ''3'' FATHER))
             = Some (mk_person ''3'' ''Mike Doe'' male ''1995-01-10'')"
    by (simp add: find_person_def INITIAL_PEOPLE_def mk_person_def mk_rel_def)
  from builder_emits_both_directions [OF r f t] r f t show ?thesis
    by (simp add: mk_rel_def mk_person_def)
qed

subsection \<open>Classifying a path with one intermediate person\<close>

text \<open>
  C2 fails on the code. The parent-of test of the classifier is a substring
  test (\<^verbatim>\<open>includes("is father of")\<close>), and the child-of label the builder
  writes quotes the parent's name. With Al the child of Bo and Bo the child of
  Cy, the search from Al to Cy returns the path Al, Bo, Cy whose two labels both
  start with \<open>is child of\<close>: the pattern child-of, child-of, for which the
  table gives \<open>grandson\<close>. Both labels also contain \<open>is father of\<close>, inside
  the quoted names, so the first test of the classifier fires and Al is called
  the grandfather of his grandfather.
\<close>

theorem deriveComplexRelationship_quoted_name:
  "findRelationshipPath ''a'' ''c'' remark_people remark_relationships =
     Inr (Some
       [hop (mk_person ''a'' ''Al'' male ''2001-01-01'')
          ''is child of (father: Bo (is father of Al))'' ''r1'',
        hop (mk_person ''b'' ''Bo (is father of Al)'' male ''1971-01-01'')
          ''is child of (father: Cy (is father of Bo))'' ''r2'',
        bare (mk_person ''c'' ''Cy (is father of Bo)'' male ''1941-01-01'')]) \<and>
   indicates_child_of ''is child of (father: Bo (is father of Al))'' \<and>
   indicates_child_of ''is child of (father: Cy (is father of Bo))'' \<and>
   deriveComplexRelationship
     (Some
       [hop (mk_person ''a'' ''Al'' male ''2001-01-01'')
          ''is child of (father: Bo (is father of Al))'' ''r1'',
        hop (mk_person ''b'' ''Bo (is father of Al)'' male ''1971-01-01'')
          ''is child of (father: Cy (is father of Bo))'' ''r2'',
        bare (mk_person ''c'' ''Cy (is father of Bo)'' male ''1941-01-01'')])
     remark_people
     = Some ''Al is grandfather of Cy (is father of Bo).''"
  by code_simp

subsection \<open>The inner loop in closed form\<close>

lemma fresh_subset: "set (fresh vis ns) \<subseteq> set ns"
  by (induction ns arbitrary: vis) auto

lemma fresh_targets: "personId ` set (fresh vis ns) = personId ` set ns - vis"
  by (induction ns arbitrary: vis) auto

lemma fresh_first:
  "n \<in> set (fresh vis ns) \<Longrightarrow> List.find (\<lambda>e. personId e = personId n) ns = Some n"
proof (induction ns arbitrary: vis)
  case Nil
  then show ?case by simp
next
  case (Cons m ns)
  show ?case
  proof (cases "n = m")
    case True
    then show ?thesis by simp
  next
    case False
    show ?thesis
    proof (cases "personId m \<in> vis")
      case True
      with Cons.prems have n: "n \<in> set (fresh vis ns)" by simp
      then have "personId n \<in> personId ` set ns - vis"
        using fresh_targets [of vis ns] by blast
      with True have "personId m \<noteq> personId n" by auto
      with Cons.IH [OF n] show ?thesis by simp
    next
      case m: False
      with Cons.prems \<open>n \<noteq> m\<close> have n: "n \<in> set (fresh (insert (personId m) vis) ns)"
        by simp
      then have "personId n \<in> personId ` set ns - insert (personId m) vis"
        using fresh_targets [of "insert (personId m) vis" ns] by blast
      then have "personId m \<noteq> personId n" by auto
      with Cons.IH [OF n] show ?thesis by simp
    qed
  qed
qed

lemma visit_neighbors_closed:
  assumes "\<forall>n \<in> set ns. find_person people (personId n) \<noteq> None"
  shows "visit_neighbors people cp ns (vis, q) =
           (vis \<union> personId ` set ns, q @ map (queued people cp) (fresh vis ns))"
  using assms
proof (induction ns arbitrary: vis q)
  case Nil
  then show ?case by simp
next
  case (Cons n ns)
  then obtain np where np: "find_person people (personId n) = Some np" by auto
  from Cons.prems have rest: "\<forall>n \<in> set ns. find_person people (personId n) \<noteq> None" by simp
  show ?case
    by (auto simp: Cons.IH [OF rest] np queued_def)
qed

subsection \<open>Extending a path\<close>

lemma extend_path_Cons:
  "cp \<noteq> [] \<Longrightarrow> extend_path (a # cp) n np = a # extend_path cp n np"
  by (simp add: extend_path_def Let_def)

lemma extend_path_single:
  "extend_path [a] n np =
     [a\<lparr>relationshipToNext := Some (relationshipLabel n), relationshipId := relationshipId_E n\<rparr>,
      \<lparr>person = np, relationshipToNext = None, relationshipId = None\<rparr>]"
  by (simp add: extend_path_def Let_def)

lemma length_extend_path: "cp \<noteq> [] \<Longrightarrow> length (extend_path cp n np) = Suc (length cp)"
  by (simp add: extend_path_def Let_def)

lemma path_ids_extend_path:
  "cp \<noteq> [] \<Longrightarrow> path_ids (extend_path cp n np) = path_ids cp @ [id_P np]"
proof (induction cp)
  case Nil
  then show ?case by simp
next
  case (Cons a cp)
  show ?case
  proof (cases "cp = []")
    case True
    then show ?thesis by (simp add: extend_path_single path_ids_def)
  next
    case False
    with Cons.IH show ?thesis by (simp add: extend_path_Cons path_ids_def)
  qed
qed

lemma traversal_nonempty: "traversal people adj p \<Longrightarrow> p \<noteq> []"
  by (cases p) auto

lemma traversal_extend_path:
  assumes "traversal people adj cp"
    and "last (path_ids cp) = u"
    and "List.find (\<lambda>e. personId e = id_P np) (neighbors_of adj u) = Some n"
    and "find_person people (id_P np) = Some np"
  shows "traversal people adj (extend_path cp n np)"
  using assms(1,2)
proof (induction cp rule: induct_list012)
  case 1
  then show ?case by simp
next
  case (2 a)
  then have "id_P (person a) = u" "find_person people (id_P (person a)) = Some (person a)"
    by (simp_all add: path_ids_def)
  with assms(3,4) show ?case
    by (auto simp: extend_path_single)
next
  case (3 a b rest)
  from "3.prems" have "traversal people adj (extend_path (b # rest) n np)"
    by (intro "3.IH"(2)) (simp_all add: path_ids_def)
  moreover obtain c rest' where "extend_path (b # rest) n np = c # rest'" "person c = person b"
  proof (cases "rest = []")
    case True
    then show ?thesis using that by (simp add: extend_path_single)
  next
    case False
    then show ?thesis using that by (simp add: extend_path_Cons)
  qed
  ultimately show ?case
    using "3.prems"(1) by (simp add: extend_path_Cons)
qed

lemma traversal_successively:
  "traversal people adj p \<Longrightarrow> successively (adj_edge adj) (path_ids p)"
proof (induction people adj p rule: traversal.induct)
  case (1 people adj)
  then show ?case by simp
next
  case (2 people adj a)
  then show ?case by (simp add: path_ids_def)
next
  case (3 people adj a b rest)
  from "3.prems" obtain entry where
    "List.find (\<lambda>e. personId e = id_P (person b)) (neighbors_of adj (id_P (person a))) = Some entry"
    by (auto split: option.splits)
  then have "entry \<in> set (neighbors_of adj (id_P (person a)))" "personId entry = id_P (person b)"
    by (auto simp: find_Some_iff)
  then have "adj_edge adj (id_P (person a)) (id_P (person b))"
    by (force simp: adj_edge_def)
  with 3 show ?case by (simp add: path_ids_def)
qed

subsection \<open>Queued paths are never empty\<close>

lemma extend_path_nonempty: "extend_path cp n np \<noteq> []"
  by (simp add: extend_path_def Let_def)

lemma queue_paths_nonempty:
  assumes "visit_neighbors people cp ns (vis, q) = (vis', q')"
    and "\<forall>it \<in> set q. snd it \<noteq> []"
  shows "\<forall>it \<in> set q'. snd it \<noteq> []"
  using assms
proof (induction ns arbitrary: vis q)
  case Nil
  then show ?case by simp
next
  case (Cons n ns)
  show ?case
  proof (cases "personId n \<in> vis")
    case True
    with Cons.prems(1) have "visit_neighbors people cp ns (vis, q) = (vis', q')" by simp
    from Cons.IH [OF this Cons.prems(2)] show ?thesis .
  next
    case False
    show ?thesis
    proof (cases "find_person people (personId n)")
      case None
      with False Cons.prems(1)
      have "visit_neighbors people cp ns (insert (personId n) vis, q) = (vis', q')" by simp
      from Cons.IH [OF this Cons.prems(2)] show ?thesis .
    next
      case (Some np)
      with False Cons.prems(1)
      have "visit_neighbors people cp ns
              (insert (personId n) vis, q @ [(personId n, extend_path cp n np)]) = (vis', q')"
        by simp
      moreover from Cons.prems(2)
      have "\<forall>it \<in> set (q @ [(personId n, extend_path cp n np)]). snd it \<noteq> []"
        by (simp add: extend_path_nonempty)
      ultimately show ?thesis by (rule Cons.IH)
    qed
  qed
qed

subsection \<open>Walks\<close>

lemma walk_butlast:
  assumes "walk E s x w" "2 \<le> length w"
  shows "\<exists>y. walk E s y (butlast w) \<and> E y x"
proof -
  from assms(2) have ne: "butlast w \<noteq> []"
    by (cases w; cases "tl w") auto
  from assms(1) have w: "w = butlast w @ [x]"
    by (metis append_butlast_last_id walk_def)
  from assms(1) have "successively E (butlast w @ [x])"
    using w by (simp add: walk_def)
  with ne have "successively E (butlast w)" "E (last (butlast w)) x"
    by (auto simp: successively_append_iff)
  moreover from assms(1) ne have "hd (butlast w) = s"
    by (metis hd_append2 w walk_def)
  ultimately show ?thesis using ne by (auto simp: walk_def)
qed

lemma walk_in_closed_set:
  assumes "walk E s x w" "s \<in> V" "\<And>a b. a \<in> V \<Longrightarrow> E a b \<Longrightarrow> b \<in> V"
  shows "x \<in> V"
  using assms(1)
proof (induction w arbitrary: x rule: rev_induct)
  case Nil
  then show ?case by (simp add: walk_def)
next
  case (snoc z w)
  show ?case
  proof (cases "w = []")
    case True
    with snoc.prems assms(2) show ?thesis by (auto simp: walk_def)
  next
    case False
    with snoc.prems have "2 \<le> length (w @ [z])" by (cases w) auto
    from walk_butlast [OF snoc.prems this] obtain y where "walk E s y w" "E y x" by auto
    with snoc.IH assms(3) show ?thesis by blast
  qed
qed

subsection \<open>The loop invariant\<close>

lemma item_ok_mono: "item_ok people adj s vis it \<Longrightarrow> vis \<subseteq> vis' \<Longrightarrow> item_ok people adj s vis' it"
  by (auto simp: item_ok_def)

lemma bfs_inv_initial:
  assumes "find_person people s = Some startNode"
  shows "bfs_inv people adj s e {s}
           [(s, [\<lparr>person = startNode, relationshipToNext = None, relationshipId = None\<rparr>])]"
proof -
  from assms have id: "id_P startNode = s" by (auto dest: find_person_Some)
  have len: "1 \<le> length w" if "walk (adj_edge adj) s s w" for w
    using that by (cases w) (auto simp: walk_def)
  have near: "x = s" if "walk (adj_edge adj) s x w" "length w \<le> 1" for x w
    using that by (cases w) (auto simp: walk_def)
  show ?thesis
    using assms id len near
    by (auto simp: bfs_inv_def item_ok_def path_ids_def)
qed

lemma queued_item_ok:
  assumes head: "item_ok people adj s vis (u, cp)"
    and near: "\<And>x w. walk (adj_edge adj) s x w \<Longrightarrow> length w \<le> length cp \<Longrightarrow> x \<in> vis"
    and closed: "adj_closed people adj"
    and n: "n \<in> set (fresh vis (neighbors_of adj u))"
  shows "item_ok people adj s (vis \<union> personId ` set (neighbors_of adj u)) (queued people cp n)"
    and "length (snd (queued people cp n)) = Suc (length cp)"
    and "fst (queued people cp n) = personId n"
proof -
  from n fresh_subset have n_in: "n \<in> set (neighbors_of adj u)" by blast
  with closed obtain np where np: "find_person people (personId n) = Some np"
    by (auto simp: adj_closed_def)
  then have id: "id_P np = personId n" by (auto dest: find_person_Some)
  from n have unvisited: "personId n \<notin> vis"
    using fresh_targets [of vis "neighbors_of adj u"] by blast
  from head have tr: "traversal people adj cp" and hd_s: "hd (path_ids cp) = s"
    and last_u: "last (path_ids cp) = u" and dist: "distinct (path_ids cp)"
    and sub: "set (path_ids cp) \<subseteq> vis"
    by (simp_all add: item_ok_def)
  from tr have ne: "cp \<noteq> []" by (rule traversal_nonempty)
  have q: "queued people cp n = (personId n, extend_path cp n np)"
    by (simp add: queued_def np)
  have ids: "path_ids (extend_path cp n np) = path_ids cp @ [personId n]"
    using ne by (simp add: path_ids_extend_path id)
  from fresh_first [OF n]
  have "List.find (\<lambda>e. personId e = id_P np) (neighbors_of adj u) = Some n"
    by (simp add: id)
  with tr last_u np have tr': "traversal people adj (extend_path cp n np)"
    by (intro traversal_extend_path) (simp_all add: id)
  have minimal: "Suc (length cp) \<le> length w" if "walk (adj_edge adj) s (personId n) w" for w
  proof (rule ccontr)
    assume "\<not> Suc (length cp) \<le> length w"
    then have "length w \<le> length cp" by simp
    from near [OF that this] unvisited show False by simp
  qed
  from ne have ids_ne: "path_ids cp \<noteq> []" by (simp add: path_ids_def)
  show "length (snd (queued people cp n)) = Suc (length cp)"
    using ne by (simp add: q length_extend_path)
  show "fst (queued people cp n) = personId n"
    by (simp add: q)
  show "item_ok people adj s (vis \<union> personId ` set (neighbors_of adj u)) (queued people cp n)"
    unfolding item_ok_def q fst_conv snd_conv
  proof (intro conjI allI impI)
    show "personId n \<in> vis \<union> personId ` set (neighbors_of adj u)"
      using n_in by simp
    show "traversal people adj (extend_path cp n np)" by (rule tr')
    show "hd (path_ids (extend_path cp n np)) = s"
      using ids_ne hd_s by (simp add: ids)
    show "last (path_ids (extend_path cp n np)) = personId n"
      by (simp add: ids)
    show "distinct (path_ids (extend_path cp n np))"
      using dist sub unvisited by (auto simp: ids)
    show "set (path_ids (extend_path cp n np)) \<subseteq> vis \<union> personId ` set (neighbors_of adj u)"
      using sub n_in by (auto simp: ids)
    show "length (extend_path cp n np) \<le> length w" if "walk (adj_edge adj) s (personId n) w" for w
      using minimal [OF that] ne by (simp add: length_extend_path)
  qed
qed

lemma bfs_inv_step:
  assumes inv: "bfs_inv people adj s e vis ((u, cp) # rest)"
    and not_end: "u \<noteq> e"
    and closed: "adj_closed people adj"
  shows "bfs_inv people adj s e (vis \<union> personId ` set (neighbors_of adj u))
           (rest @ map (queued people cp) (fresh vis (neighbors_of adj u)))"
proof -
  let ?E = "adj_edge adj"
  let ?ns = "neighbors_of adj u"
  let ?vis' = "vis \<union> personId ` set ?ns"
  let ?new = "map (queued people cp) (fresh vis ?ns)"
  let ?q' = "rest @ ?new"
  let ?L = "length cp"
  from inv have s_vis: "s \<in> vis"
    and items: "\<And>it. it \<in> set ((u, cp) # rest) \<Longrightarrow> item_ok people adj s vis it"
    and srt: "sorted (map (\<lambda>it. length (snd it)) ((u, cp) # rest))"
    and bound: "\<And>it. it \<in> set rest \<Longrightarrow> length (snd it) \<le> Suc ?L"
    and near: "\<And>x w. walk ?E s x w \<Longrightarrow> length w \<le> ?L \<Longrightarrow> x \<in> vis"
    and settled: "\<And>x. x \<in> vis \<Longrightarrow> x \<notin> fst ` set ((u, cp) # rest) \<Longrightarrow>
                 x \<noteq> e \<and> (\<forall>y. ?E x y \<longrightarrow> y \<in> vis)"
    by (auto simp: bfs_inv_def)
  from srt have rest_ge: "\<And>it. it \<in> set rest \<Longrightarrow> ?L \<le> length (snd it)"
    and rest_sorted: "sorted (map (\<lambda>it. length (snd it)) rest)"
    by auto
  have head: "item_ok people adj s vis (u, cp)" by (rule items) simp
  have new_ok: "item_ok people adj s ?vis' it" and new_len: "length (snd it) = Suc ?L"
    and new_fresh: "fst it \<in> personId ` set ?ns - vis"
    if "it \<in> set ?new" for it
  proof -
    from that obtain n where n: "n \<in> set (fresh vis ?ns)" and it: "it = queued people cp n"
      by auto
    from queued_item_ok [OF head near closed n]
    show "item_ok people adj s ?vis' it" "length (snd it) = Suc ?L"
      by (simp_all add: it)
    from queued_item_ok(3) [OF head near closed n] n
    show "fst it \<in> personId ` set ?ns - vis"
      using fresh_targets [of vis ?ns] by (auto simp: it)
  qed
  have new_fst: "fst ` set ?new = personId ` set ?ns - vis"
  proof -
    have "fst (queued people cp n) = personId n" for n
      by (simp add: queued_def)
    then have "fst ` set ?new = personId ` set (fresh vis ?ns)"
      by (simp add: image_image)
    then show ?thesis by (simp add: fresh_targets)
  qed
  have c1: "s \<in> ?vis'" using s_vis by simp
  have c2: "item_ok people adj s ?vis' it" if "it \<in> set ?q'" for it
  proof (cases "it \<in> set rest")
    case True
    then have "item_ok people adj s vis it" by (intro items) simp
    then show ?thesis by (rule item_ok_mono) simp
  next
    case False
    with that have "it \<in> set ?new" by auto
    then show ?thesis by (rule new_ok)
  qed
  have c3: "sorted (map (\<lambda>it. length (snd it)) ?q')"
  proof -
    have "sorted (map (\<lambda>it. length (snd it)) ?new)"
      using new_len by (intro sorted_wrt_iff_nth_less [THEN iffD2]) (auto simp del: map_map)
    then show ?thesis
      using rest_sorted bound new_len by (auto simp: sorted_append simp del: map_map)
  qed
  have all_le: "length (snd it) \<le> Suc ?L" if "it \<in> set ?q'" for it
    using that bound new_len by (cases "it \<in> set rest") auto
  have all_ge: "?L \<le> length (snd it)" if "it \<in> set ?q'" for it
    using that rest_ge new_len by (cases "it \<in> set rest") auto
  have c4: "length (snd it) \<le> Suc (length (snd (hd ?q')))" if "it \<in> set ?q'" for it
  proof -
    from that have "?q' \<noteq> []" by auto
    then have "hd ?q' \<in> set ?q'" by (rule hd_in_set)
    from all_ge [OF this] all_le [OF that] show ?thesis by simp
  qed
  have c6: "x \<noteq> e \<and> (\<forall>y. ?E x y \<longrightarrow> y \<in> ?vis')" if "x \<in> ?vis'" "x \<notin> fst ` set ?q'" for x
  proof (cases "x = u")
    case True
    with not_end show ?thesis by (auto simp: adj_edge_def)
  next
    case False
    from that(2) have "x \<notin> fst ` set ?new" "x \<notin> fst ` set rest" by auto
    with that(1) new_fst have "x \<in> vis" by auto
    with False \<open>x \<notin> fst ` set rest\<close> settled [of x] show ?thesis by auto
  qed
  have c5: "x \<in> ?vis'"
    if "?q' \<noteq> []" "walk ?E s x w" "length w \<le> length (snd (hd ?q'))" for x w
  proof (cases "length w \<le> ?L")
    case True
    from near [OF that(2) this] show ?thesis by simp
  next
    case False
    from that(1) have "hd ?q' \<in> set ?q'" by (rule hd_in_set)
    from all_le [OF this] that(3) False
    have lw: "length w = Suc ?L" and lh: "length (snd (hd ?q')) = Suc ?L" by simp_all
    from head have "cp \<noteq> []" by (auto simp: item_ok_def dest: traversal_nonempty)
    with lw have "2 \<le> length w" by (cases cp) auto
    from walk_butlast [OF that(2) this] obtain y where
      y: "walk ?E s y (butlast w)" and yx: "?E y x" by auto
    from lw have lb: "length (butlast w) = ?L" by simp
    from near [OF y] lb have y_vis: "y \<in> vis" by simp
    have "y \<notin> fst ` set ?q'"
    proof
      assume "y \<in> fst ` set ?q'"
      then obtain it where it: "it \<in> set ?q'" "fst it = y" by auto
      from c2 [OF it(1)] y it(2) have "length (snd it) \<le> length (butlast w)"
        by (auto simp: item_ok_def)
      moreover from c3 that(1) it(1) have "length (snd (hd ?q')) \<le> length (snd it)"
        by (cases ?q') (auto simp del: map_append map_map)
      ultimately show False using lh lb by simp
    qed
    with c6 [of y] y_vis yx show ?thesis by auto
  qed
  show ?thesis
    unfolding bfs_inv_def
    using c1 c2 c3 c4 c5 c6 by blast
qed

subsection \<open>What the loop returns\<close>

lemma bfs_loop_correct:
  assumes "adj_closed people adj" and "bfs_inv people adj s e vis q"
  shows "case bfs_loop people adj e vis q of
           None \<Rightarrow> \<not> (\<exists>w. walk (adj_edge adj) s e w)
         | Some p \<Rightarrow>
             traversal people adj p \<and> hd (path_ids p) = s \<and> last (path_ids p) = e \<and>
             distinct (path_ids p) \<and>
             (\<forall>w. walk (adj_edge adj) s e w \<longrightarrow> length p \<le> length w)"
  using assms
proof (induction people adj e vis q rule: bfs_loop.induct)
  case (1 people adj e vis)
  have "\<not> walk (adj_edge adj) s e w" for w
  proof
    assume w: "walk (adj_edge adj) s e w"
    from "1.prems"(2) have s_vis: "s \<in> vis"
      and settled: "\<forall>x \<in> vis. x \<noteq> e \<and> (\<forall>y. adj_edge adj x y \<longrightarrow> y \<in> vis)"
      by (simp_all add: bfs_inv_def)
    have "e \<in> vis"
    proof (rule walk_in_closed_set [OF w s_vis])
      fix a b
      assume "a \<in> vis" "adj_edge adj a b"
      with bspec [OF settled, of a] show "b \<in> vis" by simp
    qed
    from bspec [OF settled this] show False by simp
  qed
  then show ?case by simp
next
  case (2 people adj e vis u cp rest)
  show ?case
  proof (cases "u = e")
    case True
    from "2.prems"(2) have "item_ok people adj s vis (u, cp)"
      by (simp add: bfs_inv_def)
    with True show ?thesis by (simp add: item_ok_def)
  next
    case False
    from "2.prems"(1) have found: "\<forall>n \<in> set (neighbors_of adj u). find_person people (personId n) \<noteq> None"
      by (simp add: adj_closed_def)
    have vn: "visit_neighbors people cp (neighbors_of adj u) (vis, rest) =
                (vis \<union> personId ` set (neighbors_of adj u),
                 rest @ map (queued people cp) (fresh vis (neighbors_of adj u)))"
      by (rule visit_neighbors_closed [OF found])
    have "bfs_inv people adj s e (vis \<union> personId ` set (neighbors_of adj u))
            (rest @ map (queued people cp) (fresh vis (neighbors_of adj u)))"
      by (rule bfs_inv_step [OF "2.prems"(2) False "2.prems"(1)])
    from "2.IH" [OF False vn [symmetric] "2.prems"(1) this]
    show ?thesis using False by (simp add: vn)
  qed
qed

subsection \<open>The graph the builder stores\<close>

lemma rel_entries_targets:
  "v \<in> personId ` set (rel_entries people rel u) \<longleftrightarrow>
     find_person people (fromPersonId rel) \<noteq> None \<and>
     find_person people (toPersonId rel) \<noteq> None \<and>
     (fromPersonId rel = u \<and> toPersonId rel = v \<or>
      fromPersonId rel = v \<and> toPersonId rel = u)"
  by (cases "find_person people (fromPersonId rel)"; cases "find_person people (toPersonId rel)")
     (auto simp: rel_entries_def forward_entry_def backward_entry_def)

lemma adjacency_of_targets:
  "v \<in> personId ` set (adjacency_of people rels u) \<longleftrightarrow> linked people rels u v"
proof -
  have "v \<in> personId ` set (adjacency_of people rels u) \<longleftrightarrow>
          (\<exists>rel \<in> set rels. v \<in> personId ` set (rel_entries people rel u))"
    by (auto simp: adjacency_of_def)
  then show ?thesis
    by (simp add: rel_entries_targets linked_def)
qed

lemma linked_sym: "linked people rels u v \<Longrightarrow> linked people rels v u"
  by (auto simp: linked_def)

lemma linked_found:
  "linked people rels u v \<Longrightarrow> find_person people u \<noteq> None \<and> find_person people v \<noteq> None"
  by (auto simp: linked_def)

lemma built_adjacency:
  "\<exists>adj. build_adj people rels (init_adj people []) = Inr adj \<and>
         (\<forall>u. neighbors_of adj u = adjacency_of people rels u) \<and>
         adj_edge adj = linked people rels \<and> adj_closed people adj"
proof -
  from build_adj_neighbors [of people rels] obtain adj where
    a: "build_adj people rels (init_adj people []) = Inr adj"
    and n: "\<And>u. neighbors_of adj u = adjacency_of people rels u"
    by blast
  have e: "adj_edge adj = linked people rels"
    by (intro ext) (simp add: adj_edge_def n adjacency_of_targets)
  have "adj_closed people adj"
    unfolding adj_closed_def
  proof (intro allI ballI)
    fix u n assume "n \<in> set (neighbors_of adj u)"
    then have "adj_edge adj u (personId n)" by (auto simp: adj_edge_def)
    then have "linked people rels u (personId n)" by (simp add: e)
    then show "find_person people (personId n) \<noteq> None" by (simp add: linked_found)
  qed
  with a n e show ?thesis by blast
qed

lemma walk_rev:
  assumes "walk E s t w" and sym: "\<And>a b. E a b \<Longrightarrow> E b a"
  shows "walk E t s (rev w)"
proof -
  from assms(1) have "successively E w" by (simp add: walk_def)
  then have "successively (\<lambda>x y. E y x) w"
    by (rule successively_mono) (simp_all add: sym)
  with assms(1) show ?thesis
    by (simp add: walk_def successively_rev hd_rev last_rev)
qed

lemma walk_from_absent:
  assumes "walk (linked people rels) s t w" "s \<noteq> t"
  shows "find_person people s \<noteq> None"
proof -
  from assms obtain x w' where w: "w = s # x # w'"
    by (cases w; cases "tl w") (auto simp: walk_def)
  with assms(1) have "linked people rels s x" by (simp add: walk_def)
  then show ?thesis by (simp add: linked_found)
qed

subsection \<open>What the search returns\<close>

text \<open>
  For distinct ids the search does not throw. It returns \<^verbatim>\<open>null\<close> only when
  no walk joins the two ids; a path it returns records a traversal of the built
  adjacency map from the start to the end through distinct ids, and no walk
  between the two has fewer ids.
\<close>

lemma findRelationshipPath_search:
  assumes "s \<noteq> e"
  obtains (none) "findRelationshipPath s e people rels = Inr None"
      "\<And>w. \<not> walk (linked people rels) s e w"
  | (path) adj p where "findRelationshipPath s e people rels = Inr (Some p)"
      "build_adj people rels (init_adj people []) = Inr adj"
      "\<And>u. neighbors_of adj u = adjacency_of people rels u"
      "traversal people adj p" "hd (path_ids p) = s" "last (path_ids p) = e"
      "distinct (path_ids p)" "walk (linked people rels) s e (path_ids p)"
      "\<And>w. walk (linked people rels) s e w \<Longrightarrow> length p \<le> length w"
proof -
  obtain adj where a: "build_adj people rels (init_adj people []) = Inr adj"
    and n: "\<And>u. neighbors_of adj u = adjacency_of people rels u"
    and e: "adj_edge adj = linked people rels"
    and c: "adj_closed people adj"
    using built_adjacency [of people rels] by blast
  show thesis
  proof (cases "find_person people s")
    case None
    have "findRelationshipPath s e people rels = Inr None"
      using assms by (simp add: findRelationshipPath_def a None)
    moreover have "\<not> walk (linked people rels) s e w" for w
      using walk_from_absent [of people rels s e w] assms None by blast
    ultimately show ?thesis by (rule none)
  next
    case (Some startNode)
    let ?q = "[(s, [\<lparr>person = startNode, relationshipToNext = None, relationshipId = None\<rparr>])]"
    have f: "findRelationshipPath s e people rels = Inr (bfs_loop people adj e {s} ?q)"
      using assms by (simp add: findRelationshipPath_def a Some)
    have inv: "bfs_inv people adj s e {s} ?q"
      by (rule bfs_inv_initial [OF Some])
    note r = bfs_loop_correct [OF c inv]
    show ?thesis
    proof (cases "bfs_loop people adj e {s} ?q")
      case None
      with r have "\<not> walk (linked people rels) s e w" for w
        by (simp add: e)
      with f None show ?thesis by (intro none) simp_all
    next
      case (Some p)
      with r have tr: "traversal people adj p" and h: "hd (path_ids p) = s"
        and l: "last (path_ids p) = e" and d: "distinct (path_ids p)"
        and m: "\<And>w. walk (linked people rels) s e w \<Longrightarrow> length p \<le> length w"
        by (simp_all add: e)
      from tr have "successively (linked people rels) (path_ids p)"
        using traversal_successively [of people adj p] by (simp add: e)
      moreover from tr have "path_ids p \<noteq> []"
        by (auto simp: path_ids_def dest: traversal_nonempty)
      ultimately have w: "walk (linked people rels) s e (path_ids p)"
        using h l by (simp add: walk_def)
      from f Some have "findRelationshipPath s e people rels = Inr (Some p)" by simp
      then show ?thesis using a n tr h l d w m by (rule path)
    qed
  qed
qed

subsection \<open>Fewest hops\<close>

text \<open>
  C1. Let the start and the end be distinct ids joined by some walk \<open>w\<close> of
  the undirected graph of the relationships. Then the search returns a path;
  the ids of its segments are themselves a walk from the start to the end; and
  its hop count (segments minus one) is at most the hop count of every walk
  from the start to the end. So the hop count of the result is the minimum.
\<close>

theorem findRelationshipPath_fewest_hops:
  assumes "startId \<noteq> endId"
    and "walk (linked people relationships) startId endId w"
  shows "\<exists>path. findRelationshipPath startId endId people relationships = Inr (Some path) \<and>
           walk (linked people relationships) startId endId (path_ids path) \<and>
           length (path_ids path) = length path \<and>
           (\<forall>w'. walk (linked people relationships) startId endId w' \<longrightarrow>
                  length path - 1 \<le> length w' - 1)"
  using assms(1)
proof (cases rule: findRelationshipPath_search [of startId endId people relationships])
  case none
  with assms(2) show ?thesis by blast
next
  case (path adj p)
  from path(9) have "\<forall>w'. walk (linked people relationships) startId endId w' \<longrightarrow>
                       length p - 1 \<le> length w' - 1"
    by (auto intro: diff_le_mono)
  with path(1,8) show ?thesis by (simp add: path_ids_def)
qed

theorem findRelationshipPath_fewest_hops_witness:
  "''7'' \<noteq> ''6'' \<and>
   walk (linked INITIAL_PEOPLE INITIAL_RELATIONSHIPS) ''7'' ''6'' [''7'', ''1'', ''4'', ''6''] \<and>
   (\<exists>path. findRelationshipPath ''7'' ''6'' INITIAL_PEOPLE INITIAL_RELATIONSHIPS = Inr (Some path) \<and>
      walk (linked INITIAL_PEOPLE INITIAL_RELATIONSHIPS) ''7'' ''6'' (path_ids path) \<and>
      length (path_ids path) = length path \<and>
      (\<forall>w'. walk (linked INITIAL_PEOPLE INITIAL_RELATIONSHIPS) ''7'' ''6'' w' \<longrightarrow>
             length path - 1 \<le> length w' - 1))"
proof -
  have d: "''7'' \<noteq> ''6''" by simp
  have w: "walk (linked INITIAL_PEOPLE INITIAL_RELATIONSHIPS) ''7'' ''6'' [''7'', ''1'', ''4'', ''6'']"
    by code_simp
  from findRelationshipPath_fewest_hops [OF d w] d w show ?thesis by blast
qed

subsection \<open>The same number of hops both ways\<close>

text \<open>
  C6. For distinct ids \<open>A\<close> and \<open>B\<close> joined by a walk, the search from
  \<open>A\<close> to \<open>B\<close> and the search from \<open>B\<close> to \<open>A\<close> both return a path, and
  the two paths have the same number of hops.
\<close>

theorem findRelationshipPath_hops_symmetric:
  assumes "A \<noteq> B"
    and "walk (linked people relationships) A B w"
  shows "\<exists>p q. findRelationshipPath A B people relationships = Inr (Some p) \<and>
               findRelationshipPath B A people relationships = Inr (Some q) \<and>
               length p - 1 = length q - 1"
proof -
  have sym: "\<And>a b. linked people relationships a b \<Longrightarrow> linked people relationships b a"
    by (rule linked_sym)
  from assms(2) have reversed: "walk (linked people relationships) B A (rev w)"
    by (rule walk_rev) (rule sym)
  from assms(1) obtain p where
    p: "findRelationshipPath A B people relationships = Inr (Some p)"
    and pw: "walk (linked people relationships) A B (path_ids p)"
    and pm: "\<And>w'. walk (linked people relationships) A B w' \<Longrightarrow> length p \<le> length w'"
    using assms(2) by (cases rule: findRelationshipPath_search [of A B people relationships]) auto
  from assms(1) have "B \<noteq> A" by simp
  then obtain q where
    q: "findRelationshipPath B A people relationships = Inr (Some q)"
    and qw: "walk (linked people relationships) B A (path_ids q)"
    and qm: "\<And>w'. walk (linked people relationships) B A w' \<Longrightarrow> length q \<le> length w'"
    using reversed by (cases rule: findRelationshipPath_search [of B A people relationships]) auto
  from pw have "walk (linked people relationships) B A (rev (path_ids p))"
    by (rule walk_rev) (rule sym)
  from qm [OF this] have "length q \<le> length p" by (simp add: path_ids_def)
  moreover from qw have "walk (linked people relationships) A B (rev (path_ids q))"
    by (rule walk_rev) (rule sym)
  from pm [OF this] have "length p \<le> length q" by (simp add: path_ids_def)
  ultimately have "length p = length q" by simp
  with p q show ?thesis by simp
qed

theorem findRelationshipPath_hops_symmetric_witness:
  "''7'' \<noteq> ''6'' \<and>
   walk (linked INITIAL_PEOPLE INITIAL_RELATIONSHIPS) ''7'' ''6'' [''7'', ''1'', ''4'', ''6''] \<and>
   (\<exists>p q. findRelationshipPath ''7'' ''6'' INITIAL_PEOPLE INITIAL_RELATIONSHIPS = Inr (Some p) \<and>
          findRelationshipPath ''6'' ''7'' INITIAL_PEOPLE INITIAL_RELATIONSHIPS = Inr (Some q) \<and>
          length p - 1 = length q - 1)"
proof -
  have d: "''7'' \<noteq> ''6''" by simp
  have w: "walk (linked INITIAL_PEOPLE INITIAL_RELATIONSHIPS) ''7'' ''6'' [''7'', ''1'', ''4'', ''6'']"
    by code_simp
  from findRelationshipPath_hops_symmetric [OF d w] d w show ?thesis by blast
qed

subsection \<open>The shape of a returned path\<close>

lemma traversal_segments:
  assumes "traversal people adj p"
  shows "(\<forall>seg \<in> set p. find_person people (id_P (person seg)) = Some (person seg)) \<and>
         (\<forall>i. Suc i < length p \<longrightarrow>
            (\<exists>entry.
               List.find (\<lambda>e. personId e = id_P (person (p ! Suc i)))
                 (neighbors_of adj (id_P (person (p ! i)))) = Some entry \<and>
               relationshipToNext (p ! i) = Some (relationshipLabel entry) \<and>
               relationshipId (p ! i) = relationshipId_E entry)) \<and>
         relationshipToNext (last p) = None \<and> relationshipId (last p) = None"
  using assms
proof (induction p rule: induct_list012)
  case 1
  then show ?case by simp
next
  case (2 a)
  then show ?case by simp
next
  case (3 a b rest)
  from "3.prems" have tl: "traversal people adj (b # rest)"
    and a: "find_person people (id_P (person a)) = Some (person a)"
    by simp_all
  from "3.prems" obtain entry where
    entry: "List.find (\<lambda>e. personId e = id_P (person b)) (neighbors_of adj (id_P (person a)))
              = Some entry"
      "relationshipToNext a = Some (relationshipLabel entry)"
      "relationshipId a = relationshipId_E entry"
    by (auto split: option.splits)
  note ih = "3.IH"(2) [OF tl]
  have "\<exists>entry.
          List.find (\<lambda>e. personId e = id_P (person ((a # b # rest) ! Suc i)))
            (neighbors_of adj (id_P (person ((a # b # rest) ! i)))) = Some entry \<and>
          relationshipToNext ((a # b # rest) ! i) = Some (relationshipLabel entry) \<and>
          relationshipId ((a # b # rest) ! i) = relationshipId_E entry"
    if "Suc i < length (a # b # rest)" for i
  proof (cases i)
    case 0
    with entry show ?thesis by simp
  next
    case (Suc j)
    with that have "Suc j < length (b # rest)" by simp
    with ih Suc show ?thesis by simp
  qed
  with ih a show ?case by simp
qed

lemma adjacency_entry_relationship:
  assumes "entry \<in> set (adjacency_of people rels u)"
  shows "\<exists>rel \<in> set rels.
           relationshipId_E entry = Some (id_R rel) \<and>
           (fromPersonId rel = u \<and> toPersonId rel = personId entry \<or>
            toPersonId rel = u \<and> fromPersonId rel = personId entry)"
proof -
  from assms obtain rel where rel: "rel \<in> set rels" "entry \<in> set (rel_entries people rel u)"
    by (auto simp: adjacency_of_def)
  from rel(2) have "relationshipId_E entry = Some (id_R rel) \<and>
           (fromPersonId rel = u \<and> toPersonId rel = personId entry \<or>
            toPersonId rel = u \<and> fromPersonId rel = personId entry)"
    by (auto simp: rel_entries_def forward_entry_def backward_entry_def
             split: option.splits if_splits)
  with rel(1) show ?thesis by blast
qed

text \<open>
  C10. A path returned for distinct ids has at least two segments. The person
  of its first segment has the start id, the person of its last segment has the
  end id, and no id occurs twice. Every segment with a successor holds the
  label and the relationship id of one entry of the built adjacency map: the
  first entry, in the list of the segment's person, that points to the person
  of the next segment; that relationship id is the id of an input relationship
  joining the two persons. The last segment holds neither label nor id.
\<close>

theorem findRelationshipPath_simple_path:
  assumes "startId \<noteq> endId"
    and "findRelationshipPath startId endId people relationships = Inr (Some path)"
  shows "2 \<le> length path \<and>
         id_P (person (hd path)) = startId \<and>
         id_P (person (last path)) = endId \<and>
         distinct (map (\<lambda>seg. id_P (person seg)) path) \<and>
         (\<exists>adj. build_adj people relationships (init_adj people []) = Inr adj \<and>
            (\<forall>i. Suc i < length path \<longrightarrow>
               (\<exists>entry.
                  List.find (\<lambda>e. personId e = id_P (person (path ! Suc i)))
                    (neighbors_of adj (id_P (person (path ! i)))) = Some entry \<and>
                  relationshipToNext (path ! i) = Some (relationshipLabel entry) \<and>
                  relationshipId (path ! i) = relationshipId_E entry \<and>
                  (\<exists>rel \<in> set relationships.
                     relationshipId (path ! i) = Some (id_R rel) \<and>
                     (fromPersonId rel = id_P (person (path ! i)) \<and>
                      toPersonId rel = id_P (person (path ! Suc i)) \<or>
                      toPersonId rel = id_P (person (path ! i)) \<and>
                      fromPersonId rel = id_P (person (path ! Suc i))))))) \<and>
         relationshipToNext (last path) = None \<and>
         relationshipId (last path) = None"
  using assms(1)
proof (cases rule: findRelationshipPath_search [of startId endId people relationships])
  case none
  with assms(2) show ?thesis by simp
next
  case (path adj p)
  from path(1) assms(2) have p: "p = path" by simp
  note tr = path(4) [unfolded p]
  from tr have ne: "path \<noteq> []" by (rule traversal_nonempty)
  from path(5,6) ne have h: "id_P (person (hd path)) = startId"
    and l: "id_P (person (last path)) = endId"
    by (simp_all add: p path_ids_def hd_map last_map)
  from h l assms(1) ne have len: "2 \<le> length path"
    by (cases path; cases "tl path") auto
  from path(7) have d: "distinct (map (\<lambda>seg. id_P (person seg)) path)"
    by (simp add: p path_ids_def)
  note seg = traversal_segments [OF tr]
  have hops: "\<exists>entry.
      List.find (\<lambda>e. personId e = id_P (person (path ! Suc i)))
        (neighbors_of adj (id_P (person (path ! i)))) = Some entry \<and>
      relationshipToNext (path ! i) = Some (relationshipLabel entry) \<and>
      relationshipId (path ! i) = relationshipId_E entry \<and>
      (\<exists>rel \<in> set relationships.
         relationshipId (path ! i) = Some (id_R rel) \<and>
         (fromPersonId rel = id_P (person (path ! i)) \<and>
          toPersonId rel = id_P (person (path ! Suc i)) \<or>
          toPersonId rel = id_P (person (path ! i)) \<and>
          fromPersonId rel = id_P (person (path ! Suc i))))"
    if "Suc i < length path" for i
  proof -
    from seg that obtain entry where
      e: "List.find (\<lambda>e. personId e = id_P (person (path ! Suc i)))
            (neighbors_of adj (id_P (person (path ! i)))) = Some entry"
        "relationshipToNext (path ! i) = Some (relationshipLabel entry)"
        "relationshipId (path ! i) = relationshipId_E entry"
      by blast
    from e(1) have "entry \<in> set (adjacency_of people relationships (id_P (person (path ! i))))"
      and t: "personId entry = id_P (person (path ! Suc i))"
      by (auto simp: find_Some_iff path(3))
    from adjacency_entry_relationship [OF this(1)] e t show ?thesis by auto
  qed
  from len h l d path(2) hops seg show ?thesis by blast
qed
theorem findRelationshipPath_simple_path_witness:
  "''7'' \<noteq> ''6'' \<and>
   findRelationshipPath ''7'' ''6'' INITIAL_PEOPLE INITIAL_RELATIONSHIPS = Inr (Some chris_to_emily) \<and>
   2 \<le> length chris_to_emily \<and>
   id_P (person (hd chris_to_emily)) = ''7'' \<and>
   id_P (person (last chris_to_emily)) = ''6'' \<and>
   distinct (map (\<lambda>seg. id_P (person seg)) chris_to_emily) \<and>
   (\<exists>adj. build_adj INITIAL_PEOPLE INITIAL_RELATIONSHIPS (init_adj INITIAL_PEOPLE []) = Inr adj \<and>
      (\<forall>i. Suc i < length chris_to_emily \<longrightarrow>
         (\<exists>entry.
            List.find (\<lambda>e. personId e = id_P (person (chris_to_emily ! Suc i)))
              (neighbors_of adj (id_P (person (chris_to_emily ! i)))) = Some entry \<and>
            relationshipToNext (chris_to_emily ! i) = Some (relationshipLabel entry) \<and>
            relationshipId (chris_to_emily ! i) = relationshipId_E entry \<and>
            (\<exists>rel \<in> set INITIAL_RELATIONSHIPS.
               relationshipId (chris_to_emily ! i) = Some (id_R rel) \<and>
               (fromPersonId rel = id_P (person (chris_to_emily ! i)) \<and>
                toPersonId rel = id_P (person (chris_to_emily ! Suc i)) \<or>
                toPersonId rel = id_P (person (chris_to_emily ! i)) \<and>
                fromPersonId rel = id_P (person (chris_to_emily ! Suc i))))))) \<and>
   relationshipToNext (last chris_to_emily) = None \<and>
   relationshipId (last chris_to_emily) = None"
proof -
  have d: "''7'' \<noteq> ''6''" by simp
  have f: "findRelationshipPath ''7'' ''6'' INITIAL_PEOPLE INITIAL_RELATIONSHIPS
             = Inr (Some chris_to_emily)"
    by code_simp
  from findRelationshipPath_simple_path [OF d f] d f show ?thesis by blast
qed

subsection \<open>Relationships the builder skips\<close>

lemma add_relationship_dangling:
  "find_person people (fromPersonId rel) = None \<or> find_person people (toPersonId rel) = None \<Longrightarrow>
   add_relationship people rel adj = Inr adj"
  by (auto simp: add_relationship_def split: option.splits)

lemma build_adj_skips_dangling:
  "build_adj people
     (filter (\<lambda>rel. find_person people (fromPersonId rel) \<noteq> None \<and>
                    find_person people (toPersonId rel) \<noteq> None) rels) adj
   = build_adj people rels adj"
proof (induction rels arbitrary: adj)
  case Nil
  then show ?case by simp
next
  case (Cons rel rels)
  show ?case
  proof (cases "find_person people (fromPersonId rel) \<noteq> None \<and>
                find_person people (toPersonId rel) \<noteq> None")
    case True
    then show ?thesis
      using Cons.IH by (cases "add_relationship people rel adj") simp_all
  next
    case False
    then have "add_relationship people rel adj = Inr adj"
      by (intro add_relationship_dangling) blast
    with False show ?thesis using Cons.IH by simp
  qed
qed

lemma walk_to_found:
  assumes "walk (linked people rels) s t w" "s \<noteq> t"
  shows "find_person people t \<noteq> None"
proof -
  from assms(1) have "walk (linked people rels) t s (rev w)"
    by (rule walk_rev) (rule linked_sym)
  from walk_from_absent [OF this] assms(2) show ?thesis by blast
qed

subsection \<open>Abnormal inputs\<close>

text \<open>
  The search never throws: its result is always \<open>Inr\<close>. A start or an end
  id with no person gives \<^verbatim>\<open>null\<close>. Relationships with an endpoint that has
  no person are skipped: dropping them from the input changes nothing.
  Distinct ids joined by no walk give \<^verbatim>\<open>null\<close>. The classifier, a total
  function with no failing operation, gives \<^verbatim>\<open>null\<close> on \<^verbatim>\<open>null\<close> and on
  a path of fewer than two or more than three segments.
\<close>

lemma core_never_throws:
  "(\<exists>r. findRelationshipPath startId endId people relationships = Inr r) \<and>
   (find_person people startId = None \<or> find_person people endId = None \<longrightarrow>
      findRelationshipPath startId endId people relationships = Inr None) \<and>
   findRelationshipPath startId endId people
     (filter (\<lambda>rel. find_person people (fromPersonId rel) \<noteq> None \<and>
                    find_person people (toPersonId rel) \<noteq> None) relationships)
     = findRelationshipPath startId endId people relationships \<and>
   (startId \<noteq> endId \<and> (\<forall>w. \<not> walk (linked people relationships) startId endId w) \<longrightarrow>
      findRelationshipPath startId endId people relationships = Inr None) \<and>
   deriveComplexRelationship None allPeople = None \<and>
   (length path < 2 \<or> 4 \<le> length path \<longrightarrow>
      deriveComplexRelationship (Some path) allPeople = None)"
proof (intro conjI impI)
  show total: "\<exists>r. findRelationshipPath startId endId people relationships = Inr r"
  proof (cases "startId = endId")
    case True
    then show ?thesis
      by (cases "find_person people startId") (simp_all add: findRelationshipPath_def)
  next
    case False
    then show ?thesis
      by (cases rule: findRelationshipPath_search [of startId endId people relationships]) simp_all
  qed
  show "findRelationshipPath startId endId people relationships = Inr None"
    if "find_person people startId = None \<or> find_person people endId = None"
  proof (cases "startId = endId")
    case True
    with that show ?thesis by (auto simp: findRelationshipPath_def)
  next
    case False
    then show ?thesis
    proof (cases rule: findRelationshipPath_search [of startId endId people relationships])
      case none
      then show ?thesis by simp
    next
      case (path adj p)
      from walk_from_absent [OF path(8) False] walk_to_found [OF path(8) False] that
      show ?thesis by auto
    qed
  qed
  show "findRelationshipPath startId endId people
          (filter (\<lambda>rel. find_person people (fromPersonId rel) \<noteq> None \<and>
                         find_person people (toPersonId rel) \<noteq> None) relationships)
        = findRelationshipPath startId endId people relationships"
    unfolding findRelationshipPath_def build_adj_skips_dangling ..
  show "findRelationshipPath startId endId people relationships = Inr None"
    if "startId \<noteq> endId \<and> (\<forall>w. \<not> walk (linked people relationships) startId endId w)"
  proof -
    from that have "startId \<noteq> endId" by simp
    then show ?thesis
      using that
      by (cases rule: findRelationshipPath_search [of startId endId people relationships]) auto
  qed
  show "deriveComplexRelationship None allPeople = None"
    by (simp add: deriveComplexRelationship_def)
  show "deriveComplexRelationship (Some path) allPeople = None"
    if "length path < 2 \<or> 4 \<le> length path"
    using that by (auto simp: deriveComplexRelationship_def)
qed

text \<open>
  C8 fails on the code in its last case: a path whose shape the table does
  not list is not always left unnamed. Kid is the child of Ma and Ma is the
  spouse of Sam. The search from Kid to Sam returns, without throwing, the path
  Kid, Ma, Sam; its first label is the child-of label that quotes Ma's name,
  its second is the spouse label. The table has no term for child-of followed
  by spouse-of, so the classifier should give \<^verbatim>\<open>null\<close>. The quoted name
  contains \<open>is mother of\<close>, the substring test for parent-of passes on the
  child-of label, and the classifier calls Kid the father-in-law of Sam.
\<close>

theorem deriveComplexRelationship_unlisted_pair_named:
  "findRelationshipPath ''k'' ''s'' remark_in_law_people remark_in_law_relationships =
     Inr (Some
       [hop (mk_person ''k'' ''Kid'' male ''2005-01-01'')
          (label_text (IsChildOfMother ''Ma (is mother of Kid)'')) ''r1'',
        hop (mk_person ''m'' ''Ma (is mother of Kid)'' female ''1975-01-01'')
          (label_text IsSpouseOf) ''r2'',
        bare (mk_person ''s'' ''Sam'' male ''1974-01-01'')]) \<and>
   table_term (kind_of (IsChildOfMother ''Ma (is mother of Kid)'')) (kind_of IsSpouseOf) = None \<and>
   deriveComplexRelationship
     (Some
       [hop (mk_person ''k'' ''Kid'' male ''2005-01-01'')
          (label_text (IsChildOfMother ''Ma (is mother of Kid)'')) ''r1'',
        hop (mk_person ''m'' ''Ma (is mother of Kid)'' female ''1975-01-01'')
          (label_text IsSpouseOf) ''r2'',
        bare (mk_person ''s'' ''Sam'' male ''1974-01-01'')])
     remark_in_law_people
     = Some ''Kid is father-in-law of Sam.''"
  by code_simp

subsection \<open>One round of the loop\<close>

lemma visit_neighbors_round:
  assumes "visit_neighbors people cp ns (vis, q) = (vis', q')"
  shows "vis' = vis \<union> personId ` set ns \<and>
         (\<exists>new. q' = q @ new \<and> distinct (map fst new) \<and> fst ` set new \<subseteq> vis' - vis)"
  using assms
proof (induction ns arbitrary: vis q)
  case Nil
  then show ?case by simp
next
  case (Cons n ns)
  show ?case
  proof (cases "personId n \<in> vis")
    case True
    with Cons.prems have "visit_neighbors people cp ns (vis, q) = (vis', q')" by simp
    from Cons.IH [OF this] True show ?thesis by auto
  next
    case False
    show ?thesis
    proof (cases "find_person people (personId n)")
      case None
      with Cons.prems False
      have "visit_neighbors people cp ns (insert (personId n) vis, q) = (vis', q')" by simp
      from Cons.IH [OF this] obtain new where
        "vis' = insert (personId n) vis \<union> personId ` set ns" "q' = q @ new"
        "distinct (map fst new)" "fst ` set new \<subseteq> vis' - insert (personId n) vis"
        by blast
      then have "vis' = vis \<union> personId ` set (n # ns) \<and> q' = q @ new \<and>
                 distinct (map fst new) \<and> fst ` set new \<subseteq> vis' - vis"
        by auto
      then show ?thesis by blast
    next
      case (Some np)
      let ?it = "(personId n, extend_path cp n np)"
      from Some Cons.prems False
      have "visit_neighbors people cp ns (insert (personId n) vis, q @ [?it]) = (vis', q')"
        by simp
      from Cons.IH [OF this] obtain new where
        v: "vis' = insert (personId n) vis \<union> personId ` set ns" and q: "q' = (q @ [?it]) @ new"
        and d: "distinct (map fst new)" and s: "fst ` set new \<subseteq> vis' - insert (personId n) vis"
        by blast
      from s have "personId n \<notin> fst ` set new" by auto
      with d have "distinct (map fst (?it # new))" by simp
      moreover from s v False have "fst ` set (?it # new) \<subseteq> vis' - vis" by auto
      moreover from q have "q' = q @ (?it # new)" by simp
      moreover from v have "vis' = vis \<union> personId ` set (n # ns)" by auto
      ultimately show ?thesis by blast
    qed
  qed
qed

lemma neighbors_in_targets: "personId ` set (neighbors_of adj u) \<subseteq> adj_targets adj"
proof
  fix w assume "w \<in> personId ` set (neighbors_of adj u)"
  then obtain n where n: "n \<in> set (neighbors_of adj u)" "w = personId n" by auto
  then obtain es where "map_of adj u = Some es" "n \<in> set es"
    by (cases "map_of adj u") (auto simp: neighbors_of_def)
  then have "(u, es) \<in> set adj" "n \<in> set es" by (auto dest: map_of_SomeD)
  with n show "w \<in> adj_targets adj" by (force simp: adj_targets_def)
qed

lemma round_decreases:
  assumes "visit_neighbors people cp (neighbors_of adj u) (vis, q) = (vis', q')"
  shows "card (adj_targets adj - vis') + length q'
           < card (adj_targets adj - vis) + length ((u, cp) # q)"
proof -
  let ?U = "adj_targets adj"
  have fin: "finite ?U" by (auto simp: adj_targets_def)
  from visit_neighbors_round [OF assms] obtain new where
    v: "vis' = vis \<union> personId ` set (neighbors_of adj u)" and q: "q' = q @ new"
    and d: "distinct (map fst new)" and s: "fst ` set new \<subseteq> vis' - vis"
    by blast
  from s v neighbors_in_targets [of adj u]
  have sub: "fst ` set new \<subseteq> (?U - vis) - (?U - vis')" by auto
  from d have "length new = card (fst ` set new)"
    by (metis distinct_card length_map set_map)
  also from sub fin have "\<dots> \<le> card ((?U - vis) - (?U - vis'))"
    by (intro card_mono) auto
  also from v fin have "\<dots> = card (?U - vis) - card (?U - vis')"
    by (intro card_Diff_subset) auto
  finally have "length new \<le> card (?U - vis) - card (?U - vis')" .
  moreover from v fin have "card (?U - vis') \<le> card (?U - vis)"
    by (intro card_mono) auto
  ultimately show ?thesis by (simp add: q)
qed

subsection \<open>Self-edges\<close>

lemma rel_entries_self_filtered:
  "filter (\<lambda>n. personId n \<noteq> u) (rel_entries people rel u) =
     (if fromPersonId rel = toPersonId rel then [] else rel_entries people rel u)"
  by (auto simp: rel_entries_def forward_entry_def backward_entry_def split: option.splits)

lemma adjacency_of_without_self:
  "adjacency_of people (filter (\<lambda>rel. fromPersonId rel \<noteq> toPersonId rel) rels) u =
     filter (\<lambda>n. personId n \<noteq> u) (adjacency_of people rels u)"
proof (induction rels)
  case Nil
  then show ?case by (simp add: adjacency_of_def)
next
  case (Cons rel rels)
  then show ?case
    by (simp add: adjacency_of_def rel_entries_self_filtered)
qed

lemma visit_neighbors_skip_self:
  "u \<in> vis \<Longrightarrow>
   visit_neighbors people cp (filter (\<lambda>n. personId n \<noteq> u) ns) (vis, q) =
   visit_neighbors people cp ns (vis, q)"
proof (induction ns arbitrary: vis q)
  case Nil
  then show ?case by simp
next
  case (Cons n ns)
  then show ?case
    by (cases "find_person people (personId n)") auto
qed

lemma bfs_loop_skip_self:
  assumes "\<forall>u. neighbors_of adj' u = filter (\<lambda>n. personId n \<noteq> u) (neighbors_of adj u)"
    and "fst ` set q \<subseteq> vis"
  shows "bfs_loop people adj' e vis q = bfs_loop people adj e vis q"
  using assms
proof (induction people adj e vis q rule: bfs_loop.induct)
  case (1 people adj e vis)
  then show ?case by simp
next
  case (2 people adj e vis u cp rest)
  show ?case
  proof (cases "u = e")
    case True
    then show ?thesis by simp
  next
    case False
    from "2.prems"(2) have u: "u \<in> vis" by simp
    obtain vis' q' where
      vn: "visit_neighbors people cp (neighbors_of adj u) (vis, rest) = (vis', q')"
      by (cases "visit_neighbors people cp (neighbors_of adj u) (vis, rest)")
    from visit_neighbors_round [OF vn] obtain new where
      v: "vis' = vis \<union> personId ` set (neighbors_of adj u)" and q: "q' = rest @ new"
      and s: "fst ` set new \<subseteq> vis' - vis"
      by blast
    from "2.prems"(2) v have "fst ` set rest \<subseteq> vis'" by auto
    with s have sub: "fst ` set q' \<subseteq> vis'"
      unfolding q set_append image_Un by blast
    have "visit_neighbors people cp (neighbors_of adj' u) (vis, rest) = (vis', q')"
      using "2.prems"(1) u vn by (simp add: visit_neighbors_skip_self)
    with "2.IH" [OF False vn [symmetric] "2.prems"(1) sub] vn False
    show ?thesis by simp
  qed
qed

text \<open>
  C9. The search returns on every input. Each round of the \<^verbatim>\<open>while\<close> loop
  strictly decreases the number of unvisited targets of the adjacency map plus
  the length of the queue, the measure on which the loop is defined by
  well-founded recursion: a round takes one item off the queue and appends
  items only for ids it marks visited in that round, each at most once, so an
  id that is visited is never queued again. The result is always \<open>Inr\<close>.
  Relationships from a person to the same person do not change the result:
  the search with them removed from the input returns the same.
\<close>

theorem search_terminates:
  "(visit_neighbors people currentPath (neighbors_of adj pid) (visited, queue)
      = (visited', queue') \<longrightarrow>
      card (adj_targets adj - visited') + length queue'
        < card (adj_targets adj - visited) + length ((pid, currentPath) # queue) \<and>
      (\<exists>new. queue' = queue @ new \<and> distinct (map fst new) \<and>
             fst ` set new \<subseteq> visited' - visited)) \<and>
   (\<exists>r. findRelationshipPath startId endId people relationships = Inr r) \<and>
   findRelationshipPath startId endId people
     (filter (\<lambda>rel. fromPersonId rel \<noteq> toPersonId rel) relationships)
     = findRelationshipPath startId endId people relationships"
proof (intro conjI impI)
  assume vn: "visit_neighbors people currentPath (neighbors_of adj pid) (visited, queue)
                = (visited', queue')"
  from round_decreases [OF vn]
  show "card (adj_targets adj - visited') + length queue'
          < card (adj_targets adj - visited) + length ((pid, currentPath) # queue)" .
  from visit_neighbors_round [OF vn]
  show "\<exists>new. queue' = queue @ new \<and> distinct (map fst new) \<and>
              fst ` set new \<subseteq> visited' - visited"
    by blast
next
  obtain adj0 where a0: "build_adj people relationships (init_adj people []) = Inr adj0"
    and n0: "\<And>u. neighbors_of adj0 u = adjacency_of people relationships u"
    using build_adj_neighbors [of people relationships] by blast
  let ?rels' = "filter (\<lambda>rel. fromPersonId rel \<noteq> toPersonId rel) relationships"
  obtain adj1 where a1: "build_adj people ?rels' (init_adj people []) = Inr adj1"
    and n1: "\<And>u. neighbors_of adj1 u = adjacency_of people ?rels' u"
    using build_adj_neighbors [of people ?rels'] by blast
  show "\<exists>r. findRelationshipPath startId endId people relationships = Inr r"
    by (cases "find_person people startId"; cases "startId = endId")
       (simp_all add: findRelationshipPath_def a0)
  have rel: "\<forall>u. neighbors_of adj1 u = filter (\<lambda>n. personId n \<noteq> u) (neighbors_of adj0 u)"
    by (simp add: n0 n1 adjacency_of_without_self)
  have "bfs_loop people adj1 endId {startId} [(startId, [seg])]
          = bfs_loop people adj0 endId {startId} [(startId, [seg])]" for seg
    by (rule bfs_loop_skip_self [OF rel]) simp
  then show "findRelationshipPath startId endId people ?rels'
               = findRelationshipPath startId endId people relationships"
    by (cases "find_person people startId"; cases "startId = endId")
       (simp_all add: findRelationshipPath_def a0 a1)
qed

theorem search_terminates_witness:
  "visit_neighbors edited_people [bare john] (neighbors_of edited_adj ''1'') ({''1''}, [])
     = ({''1'', ''2'', ''3'', ''4'', ''7''}, first_round) \<and>
   map personId (neighbors_of edited_adj ''1'') = [''1'', ''1'', ''2'', ''3'', ''4'', ''7''] \<and>
   card (adj_targets edited_adj - {''1'', ''2'', ''3'', ''4'', ''7''}) + length first_round
     < card (adj_targets edited_adj - {''1''}) + length [(''1'', [bare john])] \<and>
   (\<exists>new. first_round = [] @ new \<and> distinct (map fst new) \<and>
          fst ` set new \<subseteq> {''1'', ''2'', ''3'', ''4'', ''7''} - {''1''}) \<and>
   (\<exists>r. findRelationshipPath ''1'' ''6'' edited_people edited_relationships = Inr r) \<and>
   findRelationshipPath ''1'' ''6'' edited_people
     (filter (\<lambda>rel. fromPersonId rel \<noteq> toPersonId rel) edited_relationships)
     = findRelationshipPath ''1'' ''6'' edited_people edited_relationships"
proof -
  have vn: "visit_neighbors edited_people [bare john] (neighbors_of edited_adj ''1'') ({''1''}, [])
              = ({''1'', ''2'', ''3'', ''4'', ''7''}, first_round)"
    by code_simp
  have ns: "map personId (neighbors_of edited_adj ''1'') = [''1'', ''1'', ''2'', ''3'', ''4'', ''7'']"
    by code_simp
  from search_terminates
         [where people = edited_people and currentPath = "[bare john]" and adj = edited_adj
            and pid = "''1''" and visited = "{''1''}" and queue = "[]"
            and visited' = "{''1'', ''2'', ''3'', ''4'', ''7''}" and queue' = first_round
            and startId = "''1''" and endId = "''6''" and relationships = edited_relationships]
       vn ns
  show ?thesis by blast
qed

subsection \<open>Choices along a walk\<close>

lemma choices_less_snoc:
  fixes xs ys :: "nat list"
  assumes "xs < ys" "length ys \<le> length xs"
  shows "xs @ us < ys @ vs"
  using assms by (simp add: list_less_def lexord_sufI)

lemma choices_less_last:
  fixes xs :: "nat list"
  shows "a < b \<Longrightarrow> xs @ [a] < xs @ [b]"
  by (simp add: list_less_def lexord_append_left_rightI)

lemma choices_le_snoc:
  fixes xs ys :: "nat list"
  assumes "xs \<le> ys" "length xs = length ys"
  shows "xs @ [a] \<le> ys @ [a]"
proof (cases "xs = ys")
  case True
  then show ?thesis by simp
next
  case False
  with assms(1) have "xs < ys" by simp
  with assms(2) have "xs @ [a] < ys @ [a]" by (intro choices_less_snoc) simp_all
  then show ?thesis by simp
qed

lemma length_edge_positions: "length (edge_positions nbrs ws) = length ws - 1"
  by (induction nbrs ws rule: edge_positions.induct) simp_all

lemma edge_positions_snoc:
  "ws \<noteq> [] \<Longrightarrow>
   edge_positions nbrs (ws @ [w]) = edge_positions nbrs ws @ [pos_in (nbrs (last ws)) w]"
  by (induction nbrs ws rule: edge_positions.induct) simp_all

lemma pos_in_after:
  "v \<notin> personId ` set pre \<Longrightarrow> pos_in (pre @ ns) v = length pre + pos_in ns v"
proof -
  assume "v \<notin> personId ` set pre"
  then have "takeWhile (\<lambda>n. personId n \<noteq> v) (pre @ ns)
               = pre @ takeWhile (\<lambda>n. personId n \<noteq> v) ns"
    by (intro takeWhile_append2) auto
  then show ?thesis by (simp add: pos_in_def)
qed

lemma fresh_positions:
  assumes "personId ` set pre \<subseteq> vis"
  shows "sorted_wrt (\<lambda>a b. pos_in (pre @ ns) (personId a) < pos_in (pre @ ns) (personId b))
           (fresh vis ns) \<and>
         (\<forall>n \<in> set (fresh vis ns). length pre \<le> pos_in (pre @ ns) (personId n))"
  using assms
proof (induction ns arbitrary: pre vis)
  case Nil
  then show ?case by simp
next
  case (Cons m ns)
  have app: "pre @ m # ns = (pre @ [m]) @ ns" by simp
  show ?case
  proof (cases "personId m \<in> vis")
    case True
    with Cons.prems have "personId ` set (pre @ [m]) \<subseteq> vis" by simp
    from Cons.IH [OF this] True show ?thesis
      unfolding app by auto
  next
    case False
    from Cons.prems have "personId ` set (pre @ [m]) \<subseteq> insert (personId m) vis" by auto
    from Cons.IH [OF this]
    have srt: "sorted_wrt (\<lambda>a b. pos_in (pre @ m # ns) (personId a)
                                 < pos_in (pre @ m # ns) (personId b))
                 (fresh (insert (personId m) vis) ns)"
      and bnd: "\<forall>n \<in> set (fresh (insert (personId m) vis) ns).
                  Suc (length pre) \<le> pos_in (pre @ m # ns) (personId n)"
      unfolding app by simp_all
    from False Cons.prems have "personId m \<notin> personId ` set pre" by auto
    then have here: "pos_in (pre @ m # ns) (personId m) = length pre"
      by (simp add: pos_in_after) (simp add: pos_in_def)
    from srt bnd here False show ?thesis by auto
  qed
qed

lemma fresh_sorted_positions:
  "sorted_wrt (\<lambda>a b. pos_in ns (personId a) < pos_in ns (personId b)) (fresh vis ns)"
  using fresh_positions [of "[]" vis ns] by simp

lemma choices_queued:
  assumes "cp \<noteq> []" "last (path_ids cp) = u" "find_person people (personId n) = Some np"
  shows "choices adj (snd (queued people cp n)) =
           choices adj cp @ [pos_in (neighbors_of adj u) (personId n)]"
proof -
  from assms(3) have "id_P np = personId n" by (auto dest: find_person_Some)
  with assms(1) have "path_ids (extend_path cp n np) = path_ids cp @ [personId n]"
    by (simp add: path_ids_extend_path)
  moreover from assms(1) have "path_ids cp \<noteq> []" by (simp add: path_ids_def)
  ultimately show ?thesis
    using assms(2,3) by (simp add: choices_def queued_def edge_positions_snoc)
qed

subsection \<open>The queue is in exploration order\<close>

lemma length_choices: "length (choices adj p) = length p - 1"
  by (simp add: choices_def length_edge_positions path_ids_def)

lemma order_inv_initial: "order_inv adj s [(s, [seg])]"
proof -
  have "edge_positions (neighbors_of adj) w = []" if "length w = 1" for w
    using that by (cases w) auto
  then show ?thesis
    by (simp add: order_inv_def choices_def path_ids_def)
qed

lemma order_inv_step:
  assumes inv: "bfs_inv people adj s e vis ((u, cp) # rest)"
    and ord: "order_inv adj s ((u, cp) # rest)"
    and closed: "adj_closed people adj"
  shows "order_inv adj s (rest @ map (queued people cp) (fresh vis (neighbors_of adj u)))"
proof -
  let ?E = "adj_edge adj"
  let ?ns = "neighbors_of adj u"
  let ?new = "map (queued people cp) (fresh vis ?ns)"
  let ?q' = "rest @ ?new"
  let ?L = "length cp"
  let ?ep = "edge_positions (neighbors_of adj)"
  from inv have items: "\<And>it. it \<in> set ((u, cp) # rest) \<Longrightarrow> item_ok people adj s vis it"
    and srt: "sorted (map (\<lambda>it. length (snd it)) ((u, cp) # rest))"
    and bound: "\<And>it. it \<in> set rest \<Longrightarrow> length (snd it) \<le> Suc ?L"
    and near: "\<And>x w. walk ?E s x w \<Longrightarrow> length w \<le> ?L \<Longrightarrow> x \<in> vis"
    and settled: "\<And>x. x \<in> vis \<Longrightarrow> x \<notin> fst ` set ((u, cp) # rest) \<Longrightarrow>
                 x \<noteq> e \<and> (\<forall>y. ?E x y \<longrightarrow> y \<in> vis)"
    by (auto simp: bfs_inv_def)
  from srt have rest_ge: "\<And>it. it \<in> set rest \<Longrightarrow> ?L \<le> length (snd it)" by auto
  have head: "item_ok people adj s vis (u, cp)" by (rule items) simp
  then have ne: "cp \<noteq> []" and last_u: "last (path_ids cp) = u"
    by (auto simp: item_ok_def dest: traversal_nonempty)
  from ord have o1: "\<And>it. it \<in> set rest \<Longrightarrow> explored_before adj (u, cp) it"
    and o1': "sorted_wrt (explored_before adj) rest"
    and o2: "\<And>it w. it \<in> set ((u, cp) # rest) \<Longrightarrow> walk ?E s (fst it) w \<Longrightarrow>
               length w = length (snd it) \<Longrightarrow> choices adj (snd it) \<le> ?ep w"
    and o3: "\<And>it. it \<in> set rest \<Longrightarrow> length (snd it) = Suc ?L \<Longrightarrow>
               butlast (choices adj (snd it)) < choices adj cp"
    by (auto simp: order_inv_def)
  have after_head: "choices adj cp < choices adj (snd it)"
    if "it \<in> set rest" "length (snd it) = ?L" for it
    using o1 [OF that(1)] that(2) by (simp add: explored_before_def)
  have new: "length (snd (queued people cp n)) = Suc ?L"
      "fst (queued people cp n) = personId n"
      "choices adj (snd (queued people cp n)) = choices adj cp @ [pos_in ?ns (personId n)]"
      "personId n \<notin> vis"
    if "n \<in> set (fresh vis ?ns)" for n
  proof -
    from that fresh_subset have "n \<in> set ?ns" by blast
    with closed obtain np where np: "find_person people (personId n) = Some np"
      by (auto simp: adj_closed_def)
    from queued_item_ok(2,3) [OF head near closed that]
    show "length (snd (queued people cp n)) = Suc ?L" "fst (queued people cp n) = personId n"
      by simp_all
    from choices_queued [OF ne last_u np]
    show "choices adj (snd (queued people cp n)) = choices adj cp @ [pos_in ?ns (personId n)]" .
    from that show "personId n \<notin> vis"
      using fresh_targets [of vis ?ns] by blast
  qed
  have c1: "sorted_wrt (explored_before adj) ?q'"
  proof -
    have "sorted_wrt (\<lambda>a b. explored_before adj (queued people cp a) (queued people cp b))
            (fresh vis ?ns)"
    proof (rule sorted_wrt_mono_rel [OF _ fresh_sorted_positions])
      fix a b
      assume a: "a \<in> set (fresh vis ?ns)" and b: "b \<in> set (fresh vis ?ns)"
        and "pos_in ?ns (personId a) < pos_in ?ns (personId b)"
      then have "choices adj cp @ [pos_in ?ns (personId a)]
                   < choices adj cp @ [pos_in ?ns (personId b)]"
        by (intro choices_less_last)
      with new(1,3) [OF a] new(1,3) [OF b]
      show "explored_before adj (queued people cp a) (queued people cp b)"
        by (simp add: explored_before_def)
    qed
    then have "sorted_wrt (explored_before adj) ?new"
      by (simp add: sorted_wrt_map)
    moreover have "explored_before adj a b" if "a \<in> set rest" "b \<in> set ?new" for a b
    proof -
      from that(2) obtain n where n: "n \<in> set (fresh vis ?ns)" "b = queued people cp n"
        by auto
      show ?thesis
      proof (cases "length (snd a) = Suc ?L")
        case True
        from o3 [OF that(1) True]
        have lt: "butlast (choices adj (snd a)) < choices adj cp" .
        from True have "choices adj (snd a) \<noteq> []"
          using ne length_choices [of adj "snd a"] by (cases cp) auto
        then have split: "choices adj (snd a)
                            = butlast (choices adj (snd a)) @ [last (choices adj (snd a))]"
          by simp
        have "length (choices adj cp) \<le> length (butlast (choices adj (snd a)))"
          using True by (simp add: length_choices)
        with lt have "butlast (choices adj (snd a)) @ [last (choices adj (snd a))]
                        < choices adj cp @ [pos_in ?ns (personId n)]"
          by (rule choices_less_snoc)
        with split have "choices adj (snd a) < choices adj cp @ [pos_in ?ns (personId n)]"
          by simp
        with True new(1,3) [OF n(1)] show ?thesis
          by (simp add: explored_before_def n(2))
      next
        case False
        with bound [OF that(1)] have "length (snd a) < Suc ?L" by simp
        with new(1) [OF n(1)] show ?thesis
          by (simp add: explored_before_def n(2))
      qed
    qed
    ultimately show ?thesis
      using o1' by (simp add: sorted_wrt_append)
  qed
  have c2: "choices adj (snd it) \<le> ?ep w"
    if "it \<in> set ?q'" "walk ?E s (fst it) w" "length w = length (snd it)" for it w
  proof (cases "it \<in> set rest")
    case True
    then show ?thesis using o2 [of it w] that(2,3) by simp
  next
    case False
    with that(1) obtain n where n: "n \<in> set (fresh vis ?ns)" "it = queued people cp n"
      by auto
    note nw = new [OF n(1)]
    from that(2,3) nw(1,2) have w: "walk ?E s (personId n) w" and lw: "length w = Suc ?L"
      by (simp_all add: n(2))
    from lw ne have "2 \<le> length w" by (cases cp) auto
    from walk_butlast [OF w this] obtain y where
      y: "walk ?E s y (butlast w)" and yn: "?E y (personId n)" by auto
    from lw have lb: "length (butlast w) = ?L" by simp
    from y have bl: "butlast w \<noteq> []" "last (butlast w) = y" by (simp_all add: walk_def)
    from w have "w = butlast w @ [personId n]"
      by (metis append_butlast_last_id walk_def)
    then have "?ep w = ?ep (butlast w @ [personId n])" by simp
    also have "\<dots> = ?ep (butlast w) @ [pos_in (neighbors_of adj y) (personId n)]"
      using bl by (simp add: edge_positions_snoc)
    finally have epw: "?ep w = ?ep (butlast w) @ [pos_in (neighbors_of adj y) (personId n)]" .
    have len_eq: "length (choices adj cp) = length (?ep (butlast w))"
      by (simp add: length_choices length_edge_positions lw)
    from near [OF y] lb have y_vis: "y \<in> vis" by simp
    have "choices adj cp @ [pos_in ?ns (personId n)] \<le> ?ep w"
    proof (cases "y = u")
      case True
      from o2 [of "(u, cp)" "butlast w"] y lb True
      have "choices adj cp \<le> ?ep (butlast w)" by simp
      from choices_le_snoc [OF this len_eq] True show ?thesis by (simp add: epw)
    next
      case False
      show ?thesis
      proof (cases "y \<in> fst ` set rest")
        case True
        then obtain ity where ity: "ity \<in> set rest" "fst ity = y" by auto
        from items [of ity] ity y have "length (snd ity) \<le> length (butlast w)"
          by (auto simp: item_ok_def)
        with rest_ge [OF ity(1)] lb have ly: "length (snd ity) = ?L" by simp
        from after_head [OF ity(1) ly] have "choices adj cp < choices adj (snd ity)" .
        also from o2 [of ity "butlast w"] ity y ly lb
        have "choices adj (snd ity) \<le> ?ep (butlast w)" by simp
        finally have "choices adj cp < ?ep (butlast w)" .
        then have "choices adj cp @ [pos_in ?ns (personId n)]
                     < ?ep (butlast w) @ [pos_in (neighbors_of adj y) (personId n)]"
          using len_eq by (intro choices_less_snoc) simp_all
        then show ?thesis by (simp add: epw)
      next
        case nq: False
        with False have "y \<notin> fst ` set ((u, cp) # rest)" by simp
        from settled [OF y_vis this] yn have "personId n \<in> vis" by blast
        with nw(4) show ?thesis by simp
      qed
    qed
    with nw(3) show ?thesis by (simp add: n(2))
  qed
  have c3: "butlast (choices adj (snd it)) < choices adj (snd (hd ?q'))"
    if "it \<in> set ?q'" "length (snd it) = Suc (length (snd (hd ?q')))" for it
  proof -
    have le: "length (snd a) \<le> Suc ?L" and ge: "?L \<le> length (snd a)" if "a \<in> set ?q'" for a
      using that bound rest_ge new(1) by (cases "a \<in> set rest"; auto)+
    from that(1) have "?q' \<noteq> []" by auto
    then have hd_in: "hd ?q' \<in> set ?q'" by (rule hd_in_set)
    from le [OF that(1)] ge [OF hd_in] that(2)
    have lh: "length (snd (hd ?q')) = ?L" and li: "length (snd it) = Suc ?L" by simp_all
    have "hd ?q' \<in> set rest"
    proof (rule ccontr)
      assume "hd ?q' \<notin> set rest"
      with hd_in obtain n where "n \<in> set (fresh vis ?ns)" "hd ?q' = queued people cp n"
        by auto
      with new(1) [of n] lh show False by simp
    qed
    from after_head [OF this lh] have h: "choices adj cp < choices adj (snd (hd ?q'))" .
    show ?thesis
    proof (cases "it \<in> set rest")
      case True
      from o3 [OF True li] h show ?thesis by simp
    next
      case False
      with that(1) obtain n where "n \<in> set (fresh vis ?ns)" "it = queued people cp n"
        by auto
      with new(3) [of n] h show ?thesis by simp
    qed
  qed
  show ?thesis
    unfolding order_inv_def using c1 c2 c3 by blast
qed

lemma bfs_loop_earliest:
  assumes "adj_closed people adj" and "bfs_inv people adj s e vis q" and "order_inv adj s q"
    and "bfs_loop people adj e vis q = Some p"
    and "walk (adj_edge adj) s e w" and "length w = length p"
  shows "choices adj p \<le> edge_positions (neighbors_of adj) w"
  using assms
proof (induction people adj e vis q rule: bfs_loop.induct)
  case (1 people adj e vis)
  then show ?case by simp
next
  case (2 people adj e vis u cp rest)
  show ?case
  proof (cases "u = e")
    case True
    with "2.prems"(4) have "p = cp" by simp
    with "2.prems"(3,5,6) True show ?thesis
      by (simp add: order_inv_def)
  next
    case False
    from "2.prems"(1) have found: "\<forall>n \<in> set (neighbors_of adj u). find_person people (personId n) \<noteq> None"
      by (simp add: adj_closed_def)
    have vn: "visit_neighbors people cp (neighbors_of adj u) (vis, rest) =
                (vis \<union> personId ` set (neighbors_of adj u),
                 rest @ map (queued people cp) (fresh vis (neighbors_of adj u)))"
      by (rule visit_neighbors_closed [OF found])
    have inv': "bfs_inv people adj s e (vis \<union> personId ` set (neighbors_of adj u))
            (rest @ map (queued people cp) (fresh vis (neighbors_of adj u)))"
      by (rule bfs_inv_step [OF "2.prems"(2) False "2.prems"(1)])
    have ord': "order_inv adj s (rest @ map (queued people cp) (fresh vis (neighbors_of adj u)))"
      by (rule order_inv_step [OF "2.prems"(2,3,1)])
    from "2.prems"(4) False
    have "bfs_loop people adj e (vis \<union> personId ` set (neighbors_of adj u))
            (rest @ map (queued people cp) (fresh vis (neighbors_of adj u))) = Some p"
      by (simp add: vn)
    from "2.IH" [OF False vn [symmetric] "2.prems"(1) inv' ord' this "2.prems"(5,6)]
    show ?thesis .
  qed
qed

subsection \<open>Ties between equally short paths\<close>

text \<open>
  C7, as the code has it. The builder makes one pass over the relationships
  in input order, whatever their kinds: the adjacency list of a person is the
  concatenation, in input order, of what each relationship contributes to it
  (its forward entry when the person is its \<open>fromPersonId\<close>, then its backward
  entry when the person is its \<open>toPersonId\<close>). Among the walks from the start to
  the end that have as many ids as the returned path, the returned path makes
  the lexicographically earliest sequence of choices, a choice being the
  position of the next id in the adjacency list of the current one.
\<close>

theorem findRelationshipPath_tie_break:
  assumes "startId \<noteq> endId"
    and "findRelationshipPath startId endId people relationships = Inr (Some path)"
    and "walk (linked people relationships) startId endId w"
    and "length w = length path"
  shows "\<exists>adj. build_adj people relationships (init_adj people []) = Inr adj \<and>
           (\<forall>u. neighbors_of adj u =
                  concat (map (\<lambda>rel. rel_entries people rel u) relationships)) \<and>
           edge_positions (neighbors_of adj) (map (\<lambda>seg. id_P (person seg)) path)
             \<le> edge_positions (neighbors_of adj) w"
proof -
  obtain adj where a: "build_adj people relationships (init_adj people []) = Inr adj"
    and n: "\<And>u. neighbors_of adj u = adjacency_of people relationships u"
    and e: "adj_edge adj = linked people relationships"
    and c: "adj_closed people adj"
    using built_adjacency [of people relationships] by blast
  from assms(1,2) obtain startNode where
    st: "find_person people startId = Some startNode"
    by (cases "find_person people startId") (simp_all add: findRelationshipPath_def a)
  let ?q = "[(startId, [\<lparr>person = startNode, relationshipToNext = None, relationshipId = None\<rparr>])]"
  from assms(1,2) have f: "bfs_loop people adj endId {startId} ?q = Some path"
    by (simp add: findRelationshipPath_def a st)
  have inv: "bfs_inv people adj startId endId {startId} ?q"
    by (rule bfs_inv_initial [OF st])
  have ord: "order_inv adj startId ?q"
    by (rule order_inv_initial)
  from assms(3) have w: "walk (adj_edge adj) startId endId w" by (simp add: e)
  from bfs_loop_earliest [OF c inv ord f w assms(4)]
  have "edge_positions (neighbors_of adj) (map (\<lambda>seg. id_P (person seg)) path)
          \<le> edge_positions (neighbors_of adj) w"
    by (simp add: choices_def path_ids_def)
  with a n show ?thesis
    unfolding adjacency_of_def by blast
qed

theorem findRelationshipPath_tie_break_witness:
  "''a'' \<noteq> ''d'' \<and>
   findRelationshipPath ''a'' ''d'' tie_people tie_relationships =
     Inr (Some [hop (mk_person ''a'' ''Ann'' male ''1960-01-01'') ''is sibling of'' ''r1'',
                hop (mk_person ''b'' ''Ben'' male ''1962-01-01'') ''is spouse of'' ''r3'',
                bare (mk_person ''d'' ''Dee'' female ''1986-01-01'')]) \<and>
   walk (linked tie_people tie_relationships) ''a'' ''d'' [''a'', ''c'', ''d''] \<and>
   (\<exists>adj. build_adj tie_people tie_relationships (init_adj tie_people []) = Inr adj \<and>
      (\<forall>u. neighbors_of adj u =
             concat (map (\<lambda>rel. rel_entries tie_people rel u) tie_relationships)) \<and>
      edge_positions (neighbors_of adj) [''a'', ''b'', ''d'']
        \<le> edge_positions (neighbors_of adj) [''a'', ''c'', ''d''])"
proof -
  have d: "''a'' \<noteq> ''d''" by simp
  have f: "findRelationshipPath ''a'' ''d'' tie_people tie_relationships =
     Inr (Some [hop (mk_person ''a'' ''Ann'' male ''1960-01-01'') ''is sibling of'' ''r1'',
                hop (mk_person ''b'' ''Ben'' male ''1962-01-01'') ''is spouse of'' ''r3'',
                bare (mk_person ''d'' ''Dee'' female ''1986-01-01'')])"
    by code_simp
  have w: "walk (linked tie_people tie_relationships) ''a'' ''d'' [''a'', ''c'', ''d'']"
    by code_simp
  have l: "length [''a'', ''c'', ''d''] =
           length [hop (mk_person ''a'' ''Ann'' male ''1960-01-01'') ''is sibling of'' ''r1'',
                   hop (mk_person ''b'' ''Ben'' male ''1962-01-01'') ''is spouse of'' ''r3'',
                   bare (mk_person ''d'' ''Dee'' female ''1986-01-01'')]"
    by simp
  from findRelationshipPath_tie_break [OF d f w l] d f w show ?thesis
    by (simp add: hop_def bare_def mk_person_def)
qed

text \<open>
  The claim as written fails: kinds do not order the entries. With the
  sibling relationship entered before the father relationship, the sibling entry
  comes first in Ann's adjacency list, and of the two equally short paths from
  Ann to Dee the search returns the one that starts with the sibling edge.
\<close>

theorem findRelationshipPath_tie_break_counterexample:
  "map type_R tie_relationships = [SIBLING, FATHER, SPOUSE, SPOUSE] \<and>
   build_adj tie_people tie_relationships (init_adj tie_people []) = Inr tie_adj \<and>
   map (\<lambda>n. (personId n, relationshipLabel n, relationshipId_E n)) (neighbors_of tie_adj ''a'')
     = [(''b'', ''is sibling of'', Some ''r1''), (''c'', ''is father of'', Some ''r2'')] \<and>
   walk (linked tie_people tie_relationships) ''a'' ''d'' [''a'', ''b'', ''d''] \<and>
   walk (linked tie_people tie_relationships) ''a'' ''d'' [''a'', ''c'', ''d''] \<and>
   findRelationshipPath ''a'' ''d'' tie_people tie_relationships =
     Inr (Some [hop (mk_person ''a'' ''Ann'' male ''1960-01-01'') ''is sibling of'' ''r1'',
                hop (mk_person ''b'' ''Ben'' male ''1962-01-01'') ''is spouse of'' ''r3'',
                bare (mk_person ''d'' ''Dee'' female ''1986-01-01'')])"
  by code_simp

subsection \<open>Classifying a direct edge\<close>

lemma label_text_inj: "label_text h = label_text h' \<Longrightarrow> h = h'"
  by (cases h; cases h') simp_all

lemma forward_label_text: "\<exists>h. forward_label t = label_text h"
proof (cases t)
  case FATHER
  then have "forward_label t = label_text IsFatherOf" by (simp add: forward_label_def)
  then show ?thesis ..
next
  case MOTHER
  then have "forward_label t = label_text IsMotherOf" by (simp add: forward_label_def)
  then show ?thesis ..
next
  case SPOUSE
  then have "forward_label t = label_text IsSpouseOf" by (simp add: forward_label_def)
  then show ?thesis ..
next
  case SIBLING
  then have "forward_label t = label_text IsSiblingOf" by (simp add: forward_label_def)
  then show ?thesis ..
qed

lemma backward_label_text: "\<exists>h. backward_label t n = label_text h"
proof (cases t)
  case FATHER
  then have "backward_label t n = label_text (IsChildOfFather n)" by (simp add: backward_label_def)
  then show ?thesis ..
next
  case MOTHER
  then have "backward_label t n = label_text (IsChildOfMother n)" by (simp add: backward_label_def)
  then show ?thesis ..
next
  case SPOUSE
  then have "backward_label t n = label_text IsSpouseOf" by (simp add: backward_label_def)
  then show ?thesis ..
next
  case SIBLING
  then have "backward_label t n = label_text IsSiblingOf" by (simp add: backward_label_def)
  then show ?thesis ..
qed

lemma adjacency_entry_label:
  assumes "entry \<in> set (adjacency_of people rels u)"
  shows "\<exists>h. relationshipLabel entry = label_text h"
proof -
  from assms obtain rel where "entry \<in> set (rel_entries people rel u)"
    by (auto simp: adjacency_of_def)
  then obtain fromPerson where
    "entry = forward_entry rel \<or> entry = backward_entry rel fromPerson"
    by (auto simp: rel_entries_def split: option.splits if_splits)
  then show ?thesis
    using forward_label_text [of "type_R rel"]
      backward_label_text [of "type_R rel" "name fromPerson"]
    by (auto simp: forward_entry_def backward_entry_def)
qed

lemma found_path_labels:
  assumes "findRelationshipPath startId endId people relationships = Inr (Some path)"
    and "Suc i < length path"
  shows "\<exists>h. relationshipToNext (path ! i) = Some (label_text h)"
proof (cases "startId = endId")
  case True
  with assms show ?thesis
    by (auto simp: findRelationshipPath_def split: option.splits)
next
  case False
  then show ?thesis
  proof (cases rule: findRelationshipPath_search [of startId endId people relationships])
    case none
    with assms(1) show ?thesis by simp
  next
    case (path adj p)
    from path(1) assms(1) have p: "p = path" by simp
    from traversal_segments [OF path(4) [unfolded p]] assms(2) obtain entry where
      e: "List.find (\<lambda>e. personId e = id_P (person (path ! Suc i)))
            (neighbors_of adj (id_P (person (path ! i)))) = Some entry"
        "relationshipToNext (path ! i) = Some (relationshipLabel entry)"
      by blast
    from e(1) have "entry \<in> set (adjacency_of people relationships (id_P (person (path ! i))))"
      by (auto simp: find_Some_iff path(3))
    from adjacency_entry_label [OF this] e(2) show ?thesis by auto
  qed
qed

lemma direct_builder_label:
  assumes "length path = 2"
    and "relationshipToNext (hd path) = Some (label_text h)"
  shows "deriveComplexRelationship (Some path) allPeople =
           Some (direct_sentence (name (person (hd path))) h (name (person (last path))))"
proof -
  from assms(1) obtain a b where path: "path = [a, b]"
    by (cases path; cases "tl path") auto
  from assms(2) show ?thesis
    by (cases h)
       (simp_all add: path deriveComplexRelationship_def direct_relationship_def truthy_def
          opt_startsWith_def opt_includes_def direct_sentence_def)
qed

text \<open>
  C4. A path of exactly two segments that the search returns carries, on its
  first segment, one of the labels of the specification. Whichever label that
  is, the classifier returns the sentence of the specification for it: \<open>X is
  child of Y.\<close> for a child-of label, \<open>X and Y are siblings.\<close> for the sibling
  label, and the label echoed between the two names otherwise, \<open>X\<close> being the
  name of the start person and \<open>Y\<close> the name of the end person.
\<close>

theorem deriveComplexRelationship_direct:
  assumes "findRelationshipPath startId endId people relationships = Inr (Some path)"
    and "length path = 2"
  shows "(\<exists>h. relationshipToNext (hd path) = Some (label_text h)) \<and>
         (\<forall>h. relationshipToNext (hd path) = Some (label_text h) \<longrightarrow>
            deriveComplexRelationship (Some path) allPeople =
              Some (direct_sentence (name (person (hd path))) h (name (person (last path)))))"
proof -
  from assms(2) have "path \<noteq> []" "Suc 0 < length path" by auto
  with found_path_labels [OF assms(1), of 0]
  have "\<exists>h. relationshipToNext (hd path) = Some (label_text h)"
    by (simp add: hd_conv_nth)
  with direct_builder_label [OF assms(2)] show ?thesis by blast
qed

theorem deriveComplexRelationship_direct_witness:
  "findRelationshipPath ''3'' ''1'' INITIAL_PEOPLE INITIAL_RELATIONSHIPS = Inr (Some mike_to_john) \<and>
   length mike_to_john = 2 \<and>
   relationshipToNext (hd mike_to_john) = Some (label_text (IsChildOfFather ''John Doe'')) \<and>
   deriveComplexRelationship (Some mike_to_john) INITIAL_PEOPLE
     = Some ''Mike Doe is child of John Doe.'' \<and>
   findRelationshipPath ''3'' ''4'' INITIAL_PEOPLE INITIAL_RELATIONSHIPS = Inr (Some mike_to_sarah) \<and>
   length mike_to_sarah = 2 \<and>
   relationshipToNext (hd mike_to_sarah) = Some (label_text IsSiblingOf) \<and>
   deriveComplexRelationship (Some mike_to_sarah) INITIAL_PEOPLE
     = Some ''Mike Doe and Sarah Doe are siblings.'' \<and>
   findRelationshipPath ''1'' ''3'' INITIAL_PEOPLE INITIAL_RELATIONSHIPS = Inr (Some john_to_mike) \<and>
   length john_to_mike = 2 \<and>
   relationshipToNext (hd john_to_mike) = Some (label_text IsFatherOf) \<and>
   deriveComplexRelationship (Some john_to_mike) INITIAL_PEOPLE
     = Some ''John Doe is father of Mike Doe.''"
proof -
  have f1: "findRelationshipPath ''3'' ''1'' INITIAL_PEOPLE INITIAL_RELATIONSHIPS
              = Inr (Some mike_to_john)"
    by code_simp
  have l1: "length mike_to_john = 2" by (simp add: mike_to_john_def)
  have h1: "relationshipToNext (hd mike_to_john) = Some (label_text (IsChildOfFather ''John Doe''))"
    by (simp add: mike_to_john_def hop_def)
  from deriveComplexRelationship_direct [OF f1 l1, of INITIAL_PEOPLE] h1
  have "deriveComplexRelationship (Some mike_to_john) INITIAL_PEOPLE =
          Some (direct_sentence (name (person (hd mike_to_john))) (IsChildOfFather ''John Doe'')
                  (name (person (last mike_to_john))))"
    by blast
  then have r1: "deriveComplexRelationship (Some mike_to_john) INITIAL_PEOPLE
                   = Some ''Mike Doe is child of John Doe.''"
    by (simp add: direct_sentence_def mike_to_john_def hop_def bare_def mk_person_def)
  have f2: "findRelationshipPath ''3'' ''4'' INITIAL_PEOPLE INITIAL_RELATIONSHIPS
              = Inr (Some mike_to_sarah)"
    by code_simp
  have l2: "length mike_to_sarah = 2" by (simp add: mike_to_sarah_def)
  have h2: "relationshipToNext (hd mike_to_sarah) = Some (label_text IsSiblingOf)"
    by (simp add: mike_to_sarah_def hop_def)
  from deriveComplexRelationship_direct [OF f2 l2, of INITIAL_PEOPLE] h2
  have "deriveComplexRelationship (Some mike_to_sarah) INITIAL_PEOPLE =
          Some (direct_sentence (name (person (hd mike_to_sarah))) IsSiblingOf
                  (name (person (last mike_to_sarah))))"
    by blast
  then have r2: "deriveComplexRelationship (Some mike_to_sarah) INITIAL_PEOPLE
                   = Some ''Mike Doe and Sarah Doe are siblings.''"
    by (simp add: direct_sentence_def mike_to_sarah_def hop_def bare_def mk_person_def)
  have f3: "findRelationshipPath ''1'' ''3'' INITIAL_PEOPLE INITIAL_RELATIONSHIPS
              = Inr (Some john_to_mike)"
    by code_simp
  have l3: "length john_to_mike = 2" by (simp add: john_to_mike_def)
  have h3: "relationshipToNext (hd john_to_mike) = Some (label_text IsFatherOf)"
    by (simp add: john_to_mike_def hop_def)
  from deriveComplexRelationship_direct [OF f3 l3, of INITIAL_PEOPLE] h3
  have "deriveComplexRelationship (Some john_to_mike) INITIAL_PEOPLE =
          Some (direct_sentence (name (person (hd john_to_mike))) IsFatherOf
                  (name (person (last john_to_mike))))"
    by blast
  then have r3: "deriveComplexRelationship (Some john_to_mike) INITIAL_PEOPLE
                   = Some ''John Doe is father of Mike Doe.''"
    by (simp add: direct_sentence_def john_to_mike_def hop_def bare_def mk_person_def)
  from f1 l1 h1 r1 f2 l2 h2 r2 f3 l3 h3 r3 show ?thesis by blast
qed

end
